theory Spec2Isabelle
  imports Main
begin

section \<open>A todo list persisted in localStorage\<close>

text \<open>
  The program is a browser script (\<^verbatim>\<open>src/main.js\<close>, with a second copy of the same script in
  \<^verbatim>\<open>src/unnamed/part_000\<close>). It keeps a list of todo items in \<^verbatim>\<open>window.localStorage\<close>
  under the key \<^verbatim>\<open>todos\<close> (a JSON array of objects \<^verbatim>\<open>{id, task, completed}\<close>) and the next
  id to hand out under the key \<^verbatim>\<open>uniqueId\<close>, and mirrors the list in the page as
  \<^verbatim>\<open>li\<close> elements with a checkbox, a text \<^verbatim>\<open>span\<close> and a delete button.

  The embedding follows the script function by function. What the browser provides is modelled
  first: number-to-string conversion, \<^verbatim>\<open>JSON.stringify\<close> and \<^verbatim>\<open>JSON.parse\<close>, the
  storage and the part of the document the script touches. Exceptions are values: a function
  that can throw returns an outcome carrying the state at the point of the throw, because
  everything written before an uncaught exception stays written.

  Two idealisations are made throughout. JavaScript numbers are IEEE doubles; the ids and the
  counter are small non-negative integers, on which the arithmetic of the script (adding one)
  is exact below \<open>2\<^sup>5\<^sup>3\<close>, and they are modelled as natural numbers. JavaScript strings
  are sequences of 16-bit code units; they are modelled as \<^typ>\<open>string\<close>, that is code units
  below 256.
\<close>

subsection \<open>Numbers and their decimal strings\<close>

text \<open>
  \<^verbatim>\<open>localStorage.setItem(key, n)\<close> stores the string \<^verbatim>\<open>String(n)\<close>; for a natural number
  that is its decimal numeral without leading zeros.
\<close>

definition is_digit :: "char \<Rightarrow> bool" where
  "is_digit c = (48 \<le> (of_char c :: nat) \<and> (of_char c :: nat) \<le> 57)"

definition digit_val :: "char \<Rightarrow> nat" where
  "digit_val c = of_char c - 48"

definition digit_char :: "nat \<Rightarrow> char" where
  "digit_char d = char_of (48 + d)"

fun decimal :: "nat \<Rightarrow> string" where
  "decimal n = (if n < 10 then [digit_char n] else decimal (n div 10) @ [digit_char (n mod 10)])"

declare decimal.simps [simp del]

definition digits_value :: "string \<Rightarrow> nat" where
  "digits_value s = foldl (\<lambda>a c. 10 * a + digit_val c) 0 s"

text \<open>
  \<open>ToNumber\<close> is the conversion JavaScript applies to the value read from storage, which is
  a string or \<^verbatim>\<open>null\<close> (\<open>None\<close>): \<^verbatim>\<open>null\<close> and the empty string convert to 0, a string
  of decimal digits to the number it denotes (leading zeros allowed). Every other string
  converts to \<^verbatim>\<open>NaN\<close> or to a number that is not written as plain digits (a sign, a
  fraction, an exponent, hexadecimal, surrounding blanks); these lie outside the natural
  numbers of this model and give \<open>None\<close>.

  \<^verbatim>\<open>Number(v)\<close> is that conversion, and so is the coercion done by \<^verbatim>\<open>v++\<close>, whose new
  value is the converted old value plus one.
\<close>

definition ToNumber :: "string option \<Rightarrow> nat option" where
  "ToNumber v =
     (case v of
        None \<Rightarrow> Some 0
      | Some s \<Rightarrow> if list_all is_digit s then Some (digits_value s) else None)"

definition Number :: "string option \<Rightarrow> nat option" where
  "Number v = ToNumber v"

definition postfix_increment :: "string option \<Rightarrow> nat option" where
  "postfix_increment v = map_option (\<lambda>old. old + 1) (ToNumber v)"

subsection \<open>JSON text\<close>

text \<open>
  A JSON value as a tree. Numbers are integers: a number literal with a fraction or an exponent
  denotes a double and is reported as \<open>Unsupported\<close> by the parser below, as is a
  four-digit hexadecimal escape above \<^verbatim>\<open>00FF\<close>. Object members are kept in the order of
  the text.
\<close>

datatype json = JNull | JBool bool | JNum int | JStr string
  | JArr "json list" | JObj "(string \<times> json) list"

text \<open>
  \<^verbatim>\<open>JSON.stringify\<close> writes no white space. A string is put in double quotes; the double
  quote and the backslash are escaped with a backslash, and a control character below
  \<^verbatim>\<open>0x20\<close> is written as backslash and one of the letters b, t, n, f, r, or as backslash,
  u, and four lower-case hexadecimal digits.
\<close>

definition hex_digit :: "nat \<Rightarrow> char" where
  "hex_digit d = (if d < 10 then char_of (48 + d) else char_of (87 + d))"

definition quote_char :: "char \<Rightarrow> string" where
  "quote_char c = (let n = (of_char c :: nat) in
     if n = 0x08 then [CHR 0x5C, CHR ''b'']
     else if n = 0x09 then [CHR 0x5C, CHR ''t'']
     else if n = 0x0A then [CHR 0x5C, CHR ''n'']
     else if n = 0x0C then [CHR 0x5C, CHR ''f'']
     else if n = 0x0D then [CHR 0x5C, CHR ''r'']
     else if n = 0x22 then [CHR 0x5C, CHR 0x22]
     else if n = 0x5C then [CHR 0x5C, CHR 0x5C]
     else if n < 0x20 then [CHR 0x5C, CHR ''u'', CHR ''0'', CHR ''0'', hex_digit (n div 16), hex_digit (n mod 16)]
     else [c])"

definition QuoteJSONString :: "string \<Rightarrow> string" where
  "QuoteJSONString s = CHR 0x22 # concat (map quote_char s) @ [CHR 0x22]"

fun commas :: "string list \<Rightarrow> string" where
  "commas [] = []"
| "commas [x] = x"
| "commas (x # y # zs) = x @ CHR '','' # commas (y # zs)"

fun JSON_stringify :: "json \<Rightarrow> string" where
  "JSON_stringify JNull = ''null''"
| "JSON_stringify (JBool b) = (if b then ''true'' else ''false'')"
| "JSON_stringify (JNum i) = (if i < 0 then CHR ''-'' # decimal (nat (- i)) else decimal (nat i))"
| "JSON_stringify (JStr s) = QuoteJSONString s"
| "JSON_stringify (JArr vs) = CHR ''['' # commas (map JSON_stringify vs) @ '']''"
| "JSON_stringify (JObj ms) =
     CHR ''{'' # commas (map (\<lambda>m. QuoteJSONString (fst m) @ CHR '':'' # JSON_stringify (snd m)) ms) @ ''}''"

text \<open>
  \<^verbatim>\<open>JSON.parse\<close> is a recursive-descent parser of the JSON grammar. A parser returns the
  value read and the rest of the text, or fails: \<open>SyntaxErr\<close> is the \<^verbatim>\<open>SyntaxError\<close>
  that \<^verbatim>\<open>JSON.parse\<close> throws. The recursion through nested arrays and objects is bounded by
  a fuel argument; \<open>JSON_parse\<close> supplies twice the length of the text plus one, which is
  shown below never to run out.
\<close>

datatype 'a parsed = Parsed 'a string | SyntaxErr | Unsupported | OutOfFuel

fun bind_parsed :: "'a parsed \<Rightarrow> ('a \<Rightarrow> string \<Rightarrow> 'b parsed) \<Rightarrow> 'b parsed" where
  "bind_parsed (Parsed v r) f = f v r"
| "bind_parsed SyntaxErr f = SyntaxErr"
| "bind_parsed Unsupported f = Unsupported"
| "bind_parsed OutOfFuel f = OutOfFuel"

definition is_ws :: "char \<Rightarrow> bool" where
  "is_ws c = (c = CHR '' '' \<or> c = CHR 0x09 \<or> c = CHR 0x0A \<or> c = CHR 0x0D)"

definition skip_ws :: "string \<Rightarrow> string" where
  "skip_ws s = dropWhile is_ws s"

definition hex_val :: "char \<Rightarrow> nat option" where
  "hex_val c = (let n = (of_char c :: nat) in
     if 48 \<le> n \<and> n \<le> 57 then Some (n - 48)
     else if 97 \<le> n \<and> n \<le> 102 then Some (n - 87)
     else if 65 \<le> n \<and> n \<le> 70 then Some (n - 55)
     else None)"

definition hex4 :: "char \<Rightarrow> char \<Rightarrow> char \<Rightarrow> char \<Rightarrow> nat option" where
  "hex4 a b c d = (case (hex_val a, hex_val b, hex_val c, hex_val d) of
     (Some x, Some y, Some z, Some w) \<Rightarrow> Some (((x * 16 + y) * 16 + z) * 16 + w)
   | _ \<Rightarrow> None)"

definition unescape :: "char \<Rightarrow> char option" where
  "unescape e = (if e = CHR 0x22 then Some (CHR 0x22)
     else if e = CHR 0x5C then Some (CHR 0x5C)
     else if e = CHR ''/'' then Some (CHR ''/'')
     else if e = CHR ''b'' then Some (CHR 0x08)
     else if e = CHR ''f'' then Some (CHR 0x0C)
     else if e = CHR ''n'' then Some (CHR 0x0A)
     else if e = CHR ''r'' then Some (CHR 0x0D)
     else if e = CHR ''t'' then Some (CHR 0x09)
     else None)"

text \<open>The characters of a string literal, after its opening quote.\<close>

fun parse_chars :: "string \<Rightarrow> string parsed" where
  "parse_chars [] = SyntaxErr"
| "parse_chars (c # cs) =
     (if c = CHR 0x22 then Parsed [] cs
      else if c = CHR 0x5C then
        (case cs of
           [] \<Rightarrow> SyntaxErr
         | e # es \<Rightarrow>
             if e = CHR ''u'' then
               (case es of
                  h1 # h2 # h3 # h4 # r \<Rightarrow>
                    (case hex4 h1 h2 h3 h4 of
                       None \<Rightarrow> SyntaxErr
                     | Some n \<Rightarrow>
                         if n < 256 then bind_parsed (parse_chars r) (\<lambda>s. Parsed (char_of n # s))
                         else Unsupported)
                | _ \<Rightarrow> SyntaxErr)
             else
               (case unescape e of
                  None \<Rightarrow> SyntaxErr
                | Some d \<Rightarrow> bind_parsed (parse_chars es) (\<lambda>s. Parsed (d # s))))
      else if (of_char c :: nat) < 0x20 then SyntaxErr
      else bind_parsed (parse_chars cs) (\<lambda>s. Parsed (c # s)))"

definition parse_number :: "string \<Rightarrow> json parsed" where
  "parse_number s =
     (let neg = (s \<noteq> [] \<and> hd s = CHR ''-'');
          s1 = (if neg then tl s else s);
          ds = takeWhile is_digit s1;
          r = dropWhile is_digit s1
      in if ds = [] then SyntaxErr
         else if 1 < length ds \<and> hd ds = CHR ''0'' then SyntaxErr
         else if r \<noteq> [] \<and> (hd r = CHR ''.'' \<or> hd r = CHR ''e'' \<or> hd r = CHR ''E'') then Unsupported
         else Parsed (JNum (if neg then - int (digits_value ds) else int (digits_value ds))) r)"

definition parse_literal :: "string \<Rightarrow> json parsed" where
  "parse_literal s =
     (if take 4 s = ''true'' then Parsed (JBool True) (drop 4 s)
      else if take 5 s = ''false'' then Parsed (JBool False) (drop 5 s)
      else if take 4 s = ''null'' then Parsed JNull (drop 4 s)
      else SyntaxErr)"

fun parse_value :: "nat \<Rightarrow> string \<Rightarrow> json parsed"
  and parse_elements :: "nat \<Rightarrow> string \<Rightarrow> json list parsed"
  and parse_members :: "nat \<Rightarrow> string \<Rightarrow> (string \<times> json) list parsed"
where
  "parse_value 0 s = OutOfFuel"
| "parse_value (Suc n) s =
     (case s of
        [] \<Rightarrow> SyntaxErr
      | c # cs \<Rightarrow>
          if c = CHR ''['' then
            (case skip_ws cs of
               [] \<Rightarrow> SyntaxErr
             | d # ds \<Rightarrow>
                 if d = CHR '']'' then Parsed (JArr []) ds
                 else bind_parsed (parse_elements n (d # ds)) (\<lambda>vs. Parsed (JArr vs)))
          else if c = CHR ''{'' then
            (case skip_ws cs of
               [] \<Rightarrow> SyntaxErr
             | d # ds \<Rightarrow>
                 if d = CHR ''}'' then Parsed (JObj []) ds
                 else bind_parsed (parse_members n (d # ds)) (\<lambda>ms. Parsed (JObj ms)))
          else if c = CHR 0x22 then bind_parsed (parse_chars cs) (\<lambda>t. Parsed (JStr t))
          else if c = CHR ''-'' \<or> is_digit c then parse_number s
          else parse_literal s)"
| "parse_elements 0 s = OutOfFuel"
| "parse_elements (Suc n) s =
     bind_parsed (parse_value n s) (\<lambda>v r.
       case skip_ws r of
         [] \<Rightarrow> SyntaxErr
       | c # cs \<Rightarrow>
           if c = CHR '','' then
             bind_parsed (parse_elements n (skip_ws cs)) (\<lambda>vs. Parsed (v # vs))
           else if c = CHR '']'' then Parsed [v] cs
           else SyntaxErr)"
| "parse_members 0 s = OutOfFuel"
| "parse_members (Suc n) s =
     (case s of
        [] \<Rightarrow> SyntaxErr
      | q # s1 \<Rightarrow>
          if q \<noteq> CHR 0x22 then SyntaxErr
          else bind_parsed (parse_chars s1) (\<lambda>k r.
            case skip_ws r of
              [] \<Rightarrow> SyntaxErr
            | c # cs \<Rightarrow>
                if c \<noteq> CHR '':'' then SyntaxErr
                else bind_parsed (parse_value n (skip_ws cs)) (\<lambda>v r2.
                  case skip_ws r2 of
                    [] \<Rightarrow> SyntaxErr
                  | c2 # cs2 \<Rightarrow>
                      if c2 = CHR '','' then
                        bind_parsed (parse_members n (skip_ws cs2)) (\<lambda>ms. Parsed ((k, v) # ms))
                      else if c2 = CHR ''}'' then Parsed [(k, v)] cs2
                      else SyntaxErr)))"

definition JSON_parse :: "string \<Rightarrow> json parsed" where
  "JSON_parse s = bind_parsed (parse_value (2 * length s + 1) (skip_ws s))
     (\<lambda>v r. if skip_ws r = [] then Parsed v [] else SyntaxErr)"

subsection \<open>Task records and the storage\<close>

text \<open>
  A task record \<^verbatim>\<open>{id: uniqueId, task: "example task text", completed: false}\<close>, as the
  comment at the top of the script describes it. The field names carry a prefix because
  \<open>id\<close> is a constant of HOL and \<open>task\<close> and \<open>completed\<close> are parameter names of the
  script.
\<close>

record todo =
  todo_id :: nat
  todo_task :: string
  todo_completed :: bool

text \<open>
  The array of records as a JSON value: \<^verbatim>\<open>JSON.stringify\<close> writes the properties of an
  object in the order of their creation, which is \<^verbatim>\<open>id\<close>, \<^verbatim>\<open>task\<close>,
  \<^verbatim>\<open>completed\<close> for the object literal in \<^verbatim>\<open>addToStore\<close> and the order of the text for
  an object that \<^verbatim>\<open>JSON.parse\<close> built.
\<close>

definition json_of_todo :: "todo \<Rightarrow> json" where
  "json_of_todo t = JObj [(''id'', JNum (int (todo_id t))), (''task'', JStr (todo_task t)),
     (''completed'', JBool (todo_completed t))]"

definition json_of_todos :: "todo list \<Rightarrow> json" where
  "json_of_todos ts = JArr (map json_of_todo ts)"

definition todo_of_json :: "json \<Rightarrow> todo option" where
  "todo_of_json v =
     (case v of
        JObj [(k1, JNum i), (k2, JStr s), (k3, JBool b)] \<Rightarrow>
          if k1 = ''id'' \<and> k2 = ''task'' \<and> k3 = ''completed'' \<and> 0 \<le> i
          then Some \<lparr>todo_id = nat i, todo_task = s, todo_completed = b\<rparr> else None
      | _ \<Rightarrow> None)"

fun todos_of_json :: "json list \<Rightarrow> todo list option" where
  "todos_of_json [] = Some []"
| "todos_of_json (v # vs) =
     (case todo_of_json v of
        None \<Rightarrow> None
      | Some t \<Rightarrow> (case todos_of_json vs of None \<Rightarrow> None | Some ts \<Rightarrow> Some (t # ts)))"

text \<open>\<^verbatim>\<open>window.localStorage\<close>: string keys, string values; \<^verbatim>\<open>getItem\<close> of a missing key is \<^verbatim>\<open>null\<close>.\<close>

type_synonym storage = "string \<rightharpoonup> string"

definition getItem :: "storage \<Rightarrow> string \<Rightarrow> string option" where
  "getItem ls k = ls k"

definition setItem :: "storage \<Rightarrow> string \<Rightarrow> string \<Rightarrow> storage" where
  "setItem ls k v = ls(k \<mapsto> v)"

text \<open>
  The exceptions the script can raise, and the outcome of running one of its functions on a
  state: it returns, or it throws and leaves the state as it was at the throw. \<open>Unmodelled\<close>
  is the outcome on a state that lies outside the data model: a counter that is not a string
  of digits, stored todos that are not an array of task records. The script does something
  there too (it computes with \<^verbatim>\<open>NaN\<close> and \<^verbatim>\<open>undefined\<close>), but nothing is claimed
  about it.
\<close>

datatype error = SyntaxError | TypeError

datatype 'a outcome = Returns 'a | Throws error 'a | Unmodelled

fun and_then :: "'a outcome \<Rightarrow> ('a \<Rightarrow> 'a outcome) \<Rightarrow> 'a outcome" where
  "and_then (Returns s) f = f s"
| "and_then (Throws e s) f = Throws e s"
| "and_then Unmodelled f = Unmodelled"

fun after :: "'a outcome \<Rightarrow> 'a option" where
  "after (Returns s) = Some s"
| "after (Throws e s) = Some s"
| "after Unmodelled = None"

text \<open>
  Every function of the script that works on the list starts with
  \<^verbatim>\<open>JSON.parse(window.localStorage.getItem('todos'))\<close> and then calls an array method on
  the result (\<^verbatim>\<open>push\<close>, \<^verbatim>\<open>map\<close>, \<^verbatim>\<open>filter\<close>, \<^verbatim>\<open>forEach\<close>), with no effect in
  between. \<^verbatim>\<open>JSON.parse\<close> converts its argument to a string first, so a missing key is the
  text \<^verbatim>\<open>null\<close>. The parse throws \<^verbatim>\<open>SyntaxError\<close> on text that is not JSON; the method
  call throws \<^verbatim>\<open>TypeError\<close> on a value that is not an array.
\<close>

datatype fetched = Todos "todo list" | Raise error | Foreign

definition fetch_todos :: "storage \<Rightarrow> fetched" where
  "fetch_todos ls =
     (case JSON_parse (case getItem ls ''todos'' of None \<Rightarrow> ''null'' | Some s \<Rightarrow> s) of
        SyntaxErr \<Rightarrow> Raise SyntaxError
      | Parsed (JArr vs) r \<Rightarrow> (case todos_of_json vs of None \<Rightarrow> Foreign | Some ts \<Rightarrow> Todos ts)
      | Parsed v r \<Rightarrow> Raise TypeError
      | Unsupported \<Rightarrow> Foreign
      | OutOfFuel \<Rightarrow> Foreign)"

subsection \<open>The document\<close>

text \<open>
  The part of the page the script builds: the children of the list element
  \<^verbatim>\<open>.todos__list\<close>, each an \<^verbatim>\<open>li\<close> with its \<^verbatim>\<open>data-id\<close> attribute and its child
  nodes in document order. A child is the checkbox (with or without the \<^verbatim>\<open>checked\<close>
  attribute, and the id its click listener was bound to), the text \<^verbatim>\<open>span\<close> (its
  \<^verbatim>\<open>id\<close> attribute, its text, and whether its class list holds \<^verbatim>\<open>strike\<close>), or the
  delete button (with the id its listener was bound to). The page is taken to have no other
  \<^verbatim>\<open>li\<close> with a \<^verbatim>\<open>data-id\<close> and no other element with an id of the form
  \<^verbatim>\<open>todo-n\<close>. An element reference is a position: the index of an \<^verbatim>\<open>li\<close>, or the
  index of an \<^verbatim>\<open>li\<close> and of a child in it.
\<close>

datatype node = Toggle bool nat | Span string string bool | Button nat

record li =
  data_id :: string
  children :: "node list"

record state =
  localStorage :: storage
  todoList :: "li list"

fun find_first :: "('a \<Rightarrow> bool) \<Rightarrow> 'a list \<Rightarrow> nat option" where
  "find_first P [] = None"
| "find_first P (x # xs) = (if P x then Some 0 else map_option Suc (find_first P xs))"

text \<open>\<^verbatim>\<open>document.querySelector(`li[data-id="${id}"]`)\<close>: the first match in document order, or \<^verbatim>\<open>null\<close>.\<close>

definition querySelector :: "li list \<Rightarrow> string \<Rightarrow> nat option" where
  "querySelector items v = find_first (\<lambda>l. data_id l = v) items"

fun has_id :: "string \<Rightarrow> node \<Rightarrow> bool" where
  "has_id v (Span a t s) = (a = v)"
| "has_id v (Toggle c i) = False"
| "has_id v (Button i) = False"

fun getElementById :: "li list \<Rightarrow> string \<Rightarrow> (nat \<times> nat) option" where
  "getElementById [] v = None"
| "getElementById (l # ls) v =
     (case find_first (has_id v) (children l) of
        Some j \<Rightarrow> Some (0, j)
      | None \<Rightarrow> map_option (\<lambda>p. (Suc (fst p), snd p)) (getElementById ls v))"

definition node_at :: "li list \<Rightarrow> nat \<times> nat \<Rightarrow> node option" where
  "node_at items p =
     (if fst p < length items \<and> snd p < length (children (items ! fst p))
      then Some (children (items ! fst p) ! snd p) else None)"

definition update_node :: "nat \<times> nat \<Rightarrow> (node \<Rightarrow> node) \<Rightarrow> li list \<Rightarrow> li list" where
  "update_node p f items =
     items[fst p := (items ! fst p)
       \<lparr>children := (children (items ! fst p))[snd p := f (children (items ! fst p) ! snd p)]\<rparr>]"

fun set_checked :: "bool \<Rightarrow> node \<Rightarrow> node" where
  "set_checked b (Toggle c i) = Toggle b i"
| "set_checked b (Span a t s) = Span a t s"
| "set_checked b (Button i) = Button i"

fun set_strike :: "bool \<Rightarrow> node \<Rightarrow> node" where
  "set_strike b (Span a t s) = Span a t b"
| "set_strike b (Toggle c i) = Toggle c i"
| "set_strike b (Button i) = Button i"

subsection \<open>The script \<^verbatim>\<open>src/main.js\<close>\<close>

text \<open>
  \<^verbatim>\<open>createListItem\<close> (lines 42 to 58): an \<^verbatim>\<open>li\<close> with the item's id as \<^verbatim>\<open>data-id\<close>,
  holding a \<^verbatim>\<open>span\<close> with the task text and the id \<^verbatim>\<open>todo-\<close>\<open>id\<close>, struck through if the
  item is completed.
\<close>

definition createListItem :: "todo \<Rightarrow> li" where
  "createListItem item =
     \<lparr>data_id = decimal (todo_id item),
      children = [Span (''todo-'' @ decimal (todo_id item)) (todo_task item) (todo_completed item)]\<rparr>"

text \<open>
  \<^verbatim>\<open>addToggleButton\<close> (lines 98 to 108) looks the list item up by its \<^verbatim>\<open>data-id\<close> and
  puts a checkbox before its first child; \<^verbatim>\<open>listItem.insertBefore\<close> on \<^verbatim>\<open>null\<close> is a
  \<^verbatim>\<open>TypeError\<close>. \<^verbatim>\<open>addDeleteButton\<close> (lines 133 to 140) appends the button to the
  element \<open>el\<close> it is handed, which is the \<^verbatim>\<open>li\<close> that was just created.
\<close>

definition addToggleButton :: "nat \<Rightarrow> bool \<Rightarrow> state \<Rightarrow> state outcome" where
  "addToggleButton ident completed st =
     (case querySelector (todoList st) (decimal ident) of
        None \<Rightarrow> Throws TypeError st
      | Some k \<Rightarrow>
          let listItem = todoList st ! k in
          Returns (st\<lparr>todoList := (todoList st)
            [k := listItem\<lparr>children := Toggle completed ident # children listItem\<rparr>]\<rparr>))"

definition addDeleteButton :: "nat \<Rightarrow> nat \<Rightarrow> state \<Rightarrow> state outcome" where
  "addDeleteButton el ident st =
     Returns (st\<lparr>todoList := (todoList st)
       [el := (todoList st ! el)\<lparr>children := children (todoList st ! el) @ [Button ident]\<rparr>]\<rparr>)"

text \<open>\<^verbatim>\<open>displayExistingListItem\<close> (lines 66 to 72).\<close>

definition displayExistingListItem :: "todo \<Rightarrow> state \<Rightarrow> state outcome" where
  "displayExistingListItem item st =
     (let li = createListItem item;
          el = length (todoList st)
      in and_then (addToggleButton (todo_id item) (todo_completed item) (st\<lparr>todoList := todoList st @ [li]\<rparr>))
           (addDeleteButton el (todo_id item)))"

fun forEach :: "('a \<Rightarrow> state \<Rightarrow> state outcome) \<Rightarrow> 'a list \<Rightarrow> state \<Rightarrow> state outcome" where
  "forEach f [] st = Returns st"
| "forEach f (x # xs) st = and_then (f x st) (forEach f xs)"

text \<open>
  The top-level statement of lines 15 to 21, run when the page loads. The test
  \<^verbatim>\<open>!localStorage.getItem('todos')\<close> holds for \<^verbatim>\<open>null\<close> and for the empty string.
\<close>

definition startup :: "state \<Rightarrow> state outcome" where
  "startup st =
     (if getItem (localStorage st) ''todos'' = None \<or> getItem (localStorage st) ''todos'' = Some []
      then Returns (st\<lparr>localStorage :=
             setItem (setItem (localStorage st) ''uniqueId'' (decimal 0)) ''todos'' (JSON_stringify (JArr []))\<rparr>)
      else case fetch_todos (localStorage st) of
             Raise e \<Rightarrow> Throws e st
           | Foreign \<Rightarrow> Unmodelled
           | Todos todos \<Rightarrow> forEach displayExistingListItem todos st)"

text \<open>
  \<^verbatim>\<open>incrementUniqueId\<close> (lines 153 to 157) reads the counter as a string and applies
  \<^verbatim>\<open>++\<close> to it. \<^verbatim>\<open>addToStore\<close> (lines 142 to 151).
\<close>

definition incrementUniqueId :: "storage \<Rightarrow> storage outcome" where
  "incrementUniqueId ls =
     (case postfix_increment (getItem ls ''uniqueId'') of
        None \<Rightarrow> Unmodelled
      | Some uniqueId \<Rightarrow> Returns (setItem ls ''uniqueId'' (decimal uniqueId)))"

definition addToStore :: "string \<Rightarrow> storage \<Rightarrow> storage outcome" where
  "addToStore task ls =
     (case Number (getItem ls ''uniqueId'') of
        None \<Rightarrow> Unmodelled
      | Some uniqueId \<Rightarrow>
          let newTodoItem = \<lparr>todo_id = uniqueId, todo_task = task, todo_completed = False\<rparr> in
          case fetch_todos ls of
            Raise e \<Rightarrow> Throws e ls
          | Foreign \<Rightarrow> Unmodelled
          | Todos todos \<Rightarrow>
              incrementUniqueId
                (setItem ls ''todos'' (JSON_stringify (json_of_todos (todos @ [newTodoItem])))))"

definition in_storage :: "(storage \<Rightarrow> storage outcome) \<Rightarrow> state \<Rightarrow> state outcome" where
  "in_storage f st =
     (case f (localStorage st) of
        Returns ls \<Rightarrow> Returns (st\<lparr>localStorage := ls\<rparr>)
      | Throws e ls \<Rightarrow> Throws e (st\<lparr>localStorage := ls\<rparr>)
      | Unmodelled \<Rightarrow> Unmodelled)"

text \<open>
  \<^verbatim>\<open>addNewListItem\<close> (lines 80 to 89). The item handed to \<^verbatim>\<open>createListItem\<close> has no
  \<^verbatim>\<open>completed\<close> property, which reads as \<^verbatim>\<open>undefined\<close> and is false in the test of line
  51; \<^verbatim>\<open>addToggleButton\<close> is called without its second argument, which defaults to
  \<^verbatim>\<open>false\<close>. The handler of lines 27 to 32 calls it when Enter (key code 13) is pressed on
  a non-empty input.
\<close>

definition addNewListItem :: "string \<Rightarrow> state \<Rightarrow> state outcome" where
  "addNewListItem v st =
     (case Number (getItem (localStorage st) ''uniqueId'') of
        None \<Rightarrow> Unmodelled
      | Some uniqueId \<Rightarrow>
          let li = createListItem \<lparr>todo_id = uniqueId, todo_task = v, todo_completed = False\<rparr>;
              el = length (todoList st)
          in and_then (addToggleButton uniqueId False (st\<lparr>todoList := todoList st @ [li]\<rparr>))
               (\<lambda>st1. and_then (addDeleteButton el uniqueId st1) (in_storage (addToStore v))))"

definition keydown :: "nat \<Rightarrow> string \<Rightarrow> state \<Rightarrow> state outcome" where
  "keydown keyCode v st = (if keyCode = 13 \<and> v \<noteq> [] then addNewListItem v st else Returns st)"

text \<open>
  \<^verbatim>\<open>toggleEventHandler\<close> (lines 110 to 131). \<open>toggle_todos\<close> is the \<^verbatim>\<open>todos.map\<close> of
  lines 115 to 120, \<open>update_view\<close> the conditional of lines 122 to 128: it changes the
  \<^verbatim>\<open>checked\<close> attribute of the event target first and then the class list of
  \<^verbatim>\<open>todoText\<close>, which throws \<^verbatim>\<open>TypeError\<close> when \<^verbatim>\<open>getElementById\<close> found nothing.
  The event target \<open>e\<close> is the position of the checkbox that was clicked; a position that
  holds no checkbox is not an event this handler can receive.
\<close>

definition toggle_todos :: "nat \<Rightarrow> todo list \<Rightarrow> todo list" where
  "toggle_todos ident todos =
     map (\<lambda>todo. if todo_id todo = ident then todo\<lparr>todo_completed := \<not> todo_completed todo\<rparr> else todo) todos"

definition update_view :: "nat \<times> nat \<Rightarrow> bool \<Rightarrow> (nat \<times> nat) option \<Rightarrow> state \<Rightarrow> state outcome" where
  "update_view target isChecked todoText st =
     (let st1 = st\<lparr>todoList := update_node target (set_checked (\<not> isChecked)) (todoList st)\<rparr> in
      case todoText of
        None \<Rightarrow> Throws TypeError st1
      | Some p \<Rightarrow> Returns (st1\<lparr>todoList := update_node p (set_strike (\<not> isChecked)) (todoList st1)\<rparr>))"

definition toggleEventHandler :: "nat \<times> nat \<Rightarrow> nat \<Rightarrow> state \<Rightarrow> state outcome" where
  "toggleEventHandler e ident st =
     (case node_at (todoList st) e of
        Some (Toggle isChecked i) \<Rightarrow>
          let todoText = getElementById (todoList st) (''todo-'' @ decimal ident) in
          (case fetch_todos (localStorage st) of
             Raise err \<Rightarrow> Throws err st
           | Foreign \<Rightarrow> Unmodelled
           | Todos todos \<Rightarrow>
               let updatedTodos = toggle_todos ident todos in
               and_then (update_view e isChecked todoText st)
                 (\<lambda>st1. Returns (st1\<lparr>localStorage :=
                    setItem (localStorage st1) ''todos'' (JSON_stringify (json_of_todos updatedTodos))\<rparr>)))
      | _ \<Rightarrow> Unmodelled)"

text \<open>
  \<^verbatim>\<open>removeElement\<close> (lines 159 to 166) writes the filtered list and then removes the list
  item from the page; \<^verbatim>\<open>elem.parentNode\<close> on \<^verbatim>\<open>null\<close> is a \<^verbatim>\<open>TypeError\<close>.
\<close>

definition removeElement :: "nat \<Rightarrow> state \<Rightarrow> state outcome" where
  "removeElement ident st =
     (case fetch_todos (localStorage st) of
        Raise e \<Rightarrow> Throws e st
      | Foreign \<Rightarrow> Unmodelled
      | Todos todos \<Rightarrow>
          let updatedTodos = filter (\<lambda>todo. todo_id todo \<noteq> ident) todos;
              st1 = st\<lparr>localStorage :=
                setItem (localStorage st) ''todos'' (JSON_stringify (json_of_todos updatedTodos))\<rparr>
          in case querySelector (todoList st1) (decimal ident) of
               None \<Rightarrow> Throws TypeError st1
             | Some k \<Rightarrow> Returns (st1\<lparr>todoList := take k (todoList st1) @ drop (Suc k) (todoList st1)\<rparr>))"

text \<open>
  A click goes to the listener of the node under it: the checkbox listener of line 107, the
  button listener of line 139. The \<^verbatim>\<open>span\<close> has none.
\<close>

definition click :: "nat \<times> nat \<Rightarrow> state \<Rightarrow> state outcome" where
  "click p st =
     (case node_at (todoList st) p of
        Some (Toggle c ident) \<Rightarrow> toggleEventHandler p ident st
      | Some (Button ident) \<Rightarrow> removeElement ident st
      | _ \<Rightarrow> Returns st)"

subsection \<open>The copy \<^verbatim>\<open>src/unnamed/part_000\<close>\<close>



definition toggleEventHandler_part000 :: "nat \<times> nat \<Rightarrow> nat \<Rightarrow> state \<Rightarrow> state outcome" where
  "toggleEventHandler_part000 e ident st =
     (case fetch_todos (localStorage st) of
        Raise err \<Rightarrow> Throws err st
      | Foreign \<Rightarrow> Unmodelled
      | Todos todos \<Rightarrow>
          let updatedTodos = toggle_todos ident todos;
              st1 = st\<lparr>localStorage :=
                setItem (localStorage st) ''todos'' (JSON_stringify (json_of_todos updatedTodos))\<rparr>
          in case node_at (todoList st1) e of
               Some (Toggle isChecked i) \<Rightarrow>
                 let todoText = getElementById (todoList st1) (''todo-'' @ decimal ident) in
                 update_view e isChecked todoText st1
             | _ \<Rightarrow> Unmodelled)"


subsection \<open>Runs of the application\<close>

text \<open>
  A browser with nothing stored and an empty list, and the states the application reaches
  from it: the page is loaded, and then keys are pressed in the input field, nodes of the
  list are clicked, and the page is loaded again (which rebuilds the list from the storage).
  An uncaught exception ends the handler and leaves the page in the state of the throw.
\<close>

definition fresh :: state where
  "fresh = \<lparr>localStorage = Map.empty, todoList = []\<rparr>"

inductive reachable :: "state \<Rightarrow> bool" where
  loaded: "after (startup fresh) = Some st \<Longrightarrow> reachable st"
| key: "reachable st \<Longrightarrow> after (keydown keyCode v st) = Some st' \<Longrightarrow> reachable st'"
| clicked: "reachable st \<Longrightarrow> node_at (todoList st) p \<noteq> None \<Longrightarrow> after (click p st) = Some st'
    \<Longrightarrow> reachable st'"
| reloaded: "reachable st \<Longrightarrow> after (startup (st\<lparr>todoList := []\<rparr>)) = Some st' \<Longrightarrow> reachable st'"

text \<open>A sequence of \<^verbatim>\<open>addToStore\<close> calls, one per task text.\<close>

fun appendAll :: "string list \<Rightarrow> storage \<Rightarrow> storage outcome" where
  "appendAll [] ls = Returns ls"
| "appendAll (task # tasks) ls = and_then (addToStore task ls) (appendAll tasks)"

subsection \<open>Notions used in the statements and proofs\<close>

text \<open>
  The storage holds the snapshot with counter \<open>n\<close> and records \<open>ts\<close>, in the form in which
  the script writes it.
\<close>

definition holds :: "storage \<Rightarrow> nat \<Rightarrow> todo list \<Rightarrow> bool" where
  "holds ls n ts =
     (getItem ls ''uniqueId'' = Some (decimal n) \<and>
      getItem ls ''todos'' = Some (JSON_stringify (json_of_todos ts)))"

text \<open>The list item the script shows for a record: checkbox, text, delete button.\<close>

definition rendered :: "todo \<Rightarrow> li" where
  "rendered t =
     \<lparr>data_id = decimal (todo_id t),
      children = [Toggle (todo_completed t) (todo_id t),
                  Span (''todo-'' @ decimal (todo_id t)) (todo_task t) (todo_completed t),
                  Button (todo_id t)]\<rparr>"

text \<open>
  The state in which the storage holds exactly the snapshot with counter \<open>n\<close> and records
  \<open>ts\<close> and the page shows the list item of each record, in order.
\<close>

definition shown :: "nat \<Rightarrow> todo list \<Rightarrow> state" where
  "shown n ts =
     \<lparr>localStorage = [''uniqueId'' \<mapsto> decimal n, ''todos'' \<mapsto> JSON_stringify (json_of_todos ts)],
      todoList = map rendered ts\<rparr>"

text \<open>The records that a run of \<^verbatim>\<open>addToStore\<close> calls creates from counter \<open>n\<close> on.\<close>

definition new_records :: "nat \<Rightarrow> string list \<Rightarrow> todo list" where
  "new_records n tasks =
     map (\<lambda>p. \<lparr>todo_id = fst p, todo_task = snd p, todo_completed = False\<rparr>) (zip [n..<n + length tasks] tasks)"

text \<open>For the parser proofs: what may follow a number, what a value starts with, and a
  parse result that consumed input and did not run out of fuel.\<close>

definition number_end :: "string \<Rightarrow> bool" where
  "number_end r = (r = [] \<or> \<not> is_digit (hd r) \<and> hd r \<noteq> CHR ''.'' \<and> hd r \<noteq> CHR ''e'' \<and> hd r \<noteq> CHR ''E'')"

definition value_start :: "char \<Rightarrow> bool" where
  "value_start c = (is_digit c \<or> c = CHR ''-'' \<or> c = CHR 0x22 \<or> c = CHR ''['' \<or> c = CHR ''{''
     \<or> c = CHR ''n'' \<or> c = CHR ''t'' \<or> c = CHR ''f'')"

definition member_string :: "string \<times> json \<Rightarrow> string" where
  "member_string m = QuoteJSONString (fst m) @ CHR '':'' # JSON_stringify (snd m)"

definition shorter :: "'a parsed \<Rightarrow> nat \<Rightarrow> bool" where
  "shorter p m = (case p of Parsed v r \<Rightarrow> length r < m | OutOfFuel \<Rightarrow> False | _ \<Rightarrow> True)"

section \<open>Properties of the platform model\<close>

subsection \<open>Decimal numerals\<close>

lemma is_digit_digit_char: "d < 10 \<Longrightarrow> is_digit (digit_char d)"
  by (simp add: is_digit_def digit_char_def)

lemma digit_val_digit_char: "d < 10 \<Longrightarrow> digit_val (digit_char d) = d"
  by (simp add: digit_val_def digit_char_def)

lemma decimal_digits: "list_all is_digit (decimal n)"
proof (induction n rule: decimal.induct)
  case (1 n)
  show ?case
  proof (cases "n < 10")
    case True
    then show ?thesis by (simp add: decimal.simps [of n] is_digit_digit_char)
  next
    case False
    with 1 show ?thesis by (simp add: decimal.simps [of n] is_digit_digit_char)
  qed
qed

lemma decimal_nonempty: "decimal n \<noteq> []"
  by (subst decimal.simps) simp

lemma digits_value_decimal: "digits_value (decimal n) = n"
proof (induction n rule: decimal.induct)
  case (1 n)
  show ?case
  proof (cases "n < 10")
    case True
    then show ?thesis by (simp add: decimal.simps [of n] digits_value_def digit_val_digit_char)
  next
    case False
    with 1 have "digits_value (decimal (n div 10)) = n div 10" by simp
    with False show ?thesis
      by (simp add: decimal.simps [of n] digits_value_def digit_val_digit_char)
  qed
qed

lemma ToNumber_decimal: "ToNumber (Some (decimal n)) = Some n"
  by (simp add: ToNumber_def decimal_digits digits_value_decimal)

lemma Number_decimal: "Number (Some (decimal n)) = Some n"
  by (simp add: Number_def ToNumber_decimal)

lemma decimal_inj: "decimal a = decimal b \<Longrightarrow> a = b"
  by (metis digits_value_decimal)

lemma takeWhile_digits: "list_all is_digit ds \<Longrightarrow> number_end r \<Longrightarrow> takeWhile is_digit (ds @ r) = ds"
  by (induction ds) (auto simp add: number_end_def takeWhile_eq_Nil_iff neq_Nil_conv)

lemma dropWhile_digits: "list_all is_digit ds \<Longrightarrow> number_end r \<Longrightarrow> dropWhile is_digit (ds @ r) = r"
  by (induction ds) (auto simp add: number_end_def dropWhile_eq_self_iff neq_Nil_conv)

lemma digit_char_zero: "d < 10 \<Longrightarrow> digit_char d = CHR ''0'' \<Longrightarrow> d = 0"
  by (drule arg_cong [where f = "of_char :: char \<Rightarrow> nat"]) (simp add: digit_char_def)

lemma decimal_no_leading_zero: "1 < length (decimal n) \<Longrightarrow> hd (decimal n) \<noteq> CHR ''0''"
proof (induction n rule: decimal.induct)
  case (1 n)
  show ?case
  proof (cases "n < 10")
    case True
    with 1(2) show ?thesis by (simp add: decimal.simps [of n])
  next
    case False
    show ?thesis
    proof (cases "n div 10 < 10")
      case True
      with False have "hd (decimal n) = digit_char (n div 10)"
        by (simp add: decimal.simps [of n] decimal.simps [of "n div 10"])
      moreover from False have "0 < n div 10" by simp
      ultimately show ?thesis using True digit_char_zero [of "n div 10"]
        by auto
    next
      case ge: False
      then have "1 < length (decimal (n div 10))"
        by (simp add: decimal.simps [of "n div 10"] Suc_lessI decimal_nonempty)
      with 1(1) False have "hd (decimal (n div 10)) \<noteq> CHR ''0''" by simp
      with False show ?thesis
        by (simp add: decimal.simps [of n] decimal_nonempty)
    qed
  qed
qed

lemma hd_decimal_digit: "is_digit (hd (decimal n))"
  using decimal_digits [of n] decimal_nonempty [of n]
  by (cases "decimal n") simp_all

lemma minus_not_digit: "\<not> is_digit (CHR ''-'')"
  by (simp add: is_digit_def)

subsection \<open>\<^verbatim>\<open>JSON.parse\<close> reads back what \<^verbatim>\<open>JSON.stringify\<close> wrote\<close>

lemma char_code_cases:
  "(of_char c :: nat) = of_char d \<Longrightarrow> c = d"
  by (rule of_char_eqI)

lemma hex_val_hex_digit: "d < 16 \<Longrightarrow> hex_val (hex_digit d) = Some d"
  by (auto simp add: hex_val_def hex_digit_def Let_def)

lemma hex4_quote:
  assumes "n < 32"
  shows "hex4 (CHR ''0'') (CHR ''0'') (hex_digit (n div 16)) (hex_digit (n mod 16)) = Some n"
proof -
  have a: "hex_val (hex_digit (n div 16)) = Some (n div 16)"
    using assms by (intro hex_val_hex_digit) simp
  have b: "hex_val (hex_digit (n mod 16)) = Some (n mod 16)"
    by (intro hex_val_hex_digit) simp
  have z: "hex_val (CHR ''0'') = Some 0"
    by (simp add: hex_val_def)
  show ?thesis
    by (simp add: hex4_def a b z)
qed

lemma parse_chars_quote_char:
  "parse_chars (quote_char c @ s) = bind_parsed (parse_chars s) (\<lambda>t. Parsed (c # t))"
proof -
  let ?n = "of_char c :: nat"
  consider "?n = 0x08" | "?n = 0x09" | "?n = 0x0A" | "?n = 0x0C" | "?n = 0x0D" | "?n = 0x22" | "?n = 0x5C"
    | "?n < 0x20" "?n \<noteq> 0x08" "?n \<noteq> 0x09" "?n \<noteq> 0x0A" "?n \<noteq> 0x0C" "?n \<noteq> 0x0D"
    | "?n \<ge> 0x20" "?n \<noteq> 0x22" "?n \<noteq> 0x5C"
    by linarith
  then show ?thesis
  proof cases
    case 1
    then have "c = CHR 0x08" by (intro char_code_cases) simp
    then show ?thesis by (simp add: quote_char_def unescape_def)
  next
    case 2
    then have "c = CHR 0x09" by (intro char_code_cases) simp
    then show ?thesis by (simp add: quote_char_def unescape_def)
  next
    case 3
    then have "c = CHR 0x0A" by (intro char_code_cases) simp
    then show ?thesis by (simp add: quote_char_def unescape_def)
  next
    case 4
    then have "c = CHR 0x0C" by (intro char_code_cases) simp
    then show ?thesis by (simp add: quote_char_def unescape_def)
  next
    case 5
    then have "c = CHR 0x0D" by (intro char_code_cases) simp
    then show ?thesis by (simp add: quote_char_def unescape_def)
  next
    case 6
    then have "c = CHR 0x22" by (intro char_code_cases) simp
    then show ?thesis by (simp add: quote_char_def unescape_def)
  next
    case 7
    then have "c = CHR 0x5C" by (intro char_code_cases) simp
    then show ?thesis by (simp add: quote_char_def unescape_def)
  next
    case 8
    then have h: "hex4 (CHR ''0'') (CHR ''0'') (hex_digit (?n div 16)) (hex_digit (?n mod 16)) = Some ?n"
      by (intro hex4_quote) simp
    from 8 show ?thesis
      by (simp add: quote_char_def Let_def h)
  next
    case 9
    then have "c \<noteq> CHR 0x22" "c \<noteq> CHR 0x5C" by auto
    with 9 show ?thesis
      by (simp add: quote_char_def Let_def)
  qed
qed

lemma parse_chars_quoted:
  "parse_chars (concat (map quote_char s) @ CHR 0x22 # rest) = Parsed s rest"
  by (induction s) (simp_all add: parse_chars_quote_char)

lemma parse_number_stringify:
  assumes "number_end r"
  shows "parse_number (JSON_stringify (JNum i) @ r) = Parsed (JNum i) r"
proof (cases "i < 0")
  case True
  let ?ds = "decimal (nat (- i))"
  have "parse_number (CHR ''-'' # ?ds @ r) = Parsed (JNum (- int (digits_value ?ds))) r"
    using assms decimal_no_leading_zero [of "nat (- i)"] decimal_nonempty [of "nat (- i)"]
    by (auto simp add: parse_number_def Let_def takeWhile_digits dropWhile_digits decimal_digits number_end_def)
  with True show ?thesis by (simp add: digits_value_decimal)
next
  case False
  let ?ds = "decimal (nat i)"
  have "hd (?ds @ r) \<noteq> CHR ''-''"
    using hd_decimal_digit [of "nat i"] decimal_nonempty [of "nat i"] minus_not_digit by auto
  then have "parse_number (?ds @ r) = Parsed (JNum (int (digits_value ?ds))) r"
    using assms decimal_no_leading_zero [of "nat i"] decimal_nonempty [of "nat i"]
    by (auto simp add: parse_number_def Let_def takeWhile_digits dropWhile_digits decimal_digits number_end_def)
  with False show ?thesis by (simp add: digits_value_decimal)
qed

lemma value_start_not_ws: "value_start c \<Longrightarrow> \<not> is_ws c"
  by (auto simp add: value_start_def is_ws_def is_digit_def)

lemma value_start_not_close: "value_start c \<Longrightarrow> c \<noteq> CHR '']'' \<and> c \<noteq> CHR ''}''"
  by (auto simp add: value_start_def is_digit_def)

lemma stringify_start: "\<exists>c cs. JSON_stringify j = c # cs \<and> value_start c"
proof (cases j)
  case (JNum i)
  have "\<exists>c cs. decimal (nat i) = c # cs \<and> is_digit c"
    using hd_decimal_digit [of "nat i"] decimal_nonempty [of "nat i"]
    by (cases "decimal (nat i)") auto
  with JNum show ?thesis by (auto simp add: value_start_def)
qed (auto simp add: value_start_def QuoteJSONString_def)

lemma skip_ws_start: "value_start c \<Longrightarrow> skip_ws (c # cs) = c # cs"
  by (simp add: skip_ws_def value_start_not_ws)

lemma skip_ws_stringify: "skip_ws (JSON_stringify j @ r) = JSON_stringify j @ r"
  using stringify_start [of j] by (auto simp add: skip_ws_start)

lemma skip_ws_delim [simp]:
  "skip_ws (CHR '','' # r) = CHR '','' # r"
  "skip_ws (CHR '']'' # r) = CHR '']'' # r"
  "skip_ws (CHR ''}'' # r) = CHR ''}'' # r"
  "skip_ws (CHR '':'' # r) = CHR '':'' # r"
  "skip_ws (CHR 0x22 # r) = CHR 0x22 # r"
  by (simp_all add: skip_ws_def is_ws_def)

lemma number_end_delim [simp]:
  "number_end []"
  "number_end (CHR '','' # r)"
  "number_end (CHR '']'' # r)"
  "number_end (CHR ''}'' # r)"
  by (simp_all add: number_end_def is_digit_def)

lemma parse_value_primitive:
  assumes "number_end r" and "\<forall>vs. j \<noteq> JArr vs" and "\<forall>ms. j \<noteq> JObj ms"
  shows "parse_value (Suc n) (JSON_stringify j @ r) = Parsed j r"
proof (cases j)
  case JNull
  then show ?thesis by (simp add: parse_literal_def is_digit_def)
next
  case (JBool b)
  then show ?thesis by (simp add: parse_literal_def is_digit_def)
next
  case (JNum i)
  have "\<exists>c cs. JSON_stringify (JNum i) = c # cs \<and> (is_digit c \<or> c = CHR ''-'')"
    using hd_decimal_digit [of "nat i"] decimal_nonempty [of "nat i"]
    by (cases "decimal (nat i)") auto
  then obtain c cs where d: "JSON_stringify (JNum i) = c # cs" "is_digit c \<or> c = CHR ''-''"
    by blast
  then have "c \<noteq> CHR ''['' \<and> c \<noteq> CHR ''{'' \<and> c \<noteq> CHR 0x22"
    by (auto simp add: is_digit_def)
  with d have "parse_value (Suc n) (JSON_stringify (JNum i) @ r) = parse_number (JSON_stringify (JNum i) @ r)"
    by auto
  with JNum assms(1) show ?thesis by (simp only: parse_number_stringify)
next
  case (JStr s)
  then show ?thesis by (simp add: QuoteJSONString_def parse_chars_quoted)
next
  case (JArr vs)
  with assms show ?thesis by simp
next
  case (JObj ms)
  with assms show ?thesis by simp
qed

lemma commas_length_Cons: "ws \<noteq> [] \<Longrightarrow> length (commas (x # ws)) = length x + 1 + length (commas ws)"
  by (cases ws) simp_all

lemma parse_elements_stringify:
  assumes "vs \<noteq> []"
    and "\<And>v n r. v \<in> set vs \<Longrightarrow> 2 * length (JSON_stringify v) < n \<Longrightarrow> number_end r
           \<Longrightarrow> parse_value n (JSON_stringify v @ r) = Parsed v r"
    and "2 * length (commas (map JSON_stringify vs)) + 1 < n"
  shows "parse_elements n (commas (map JSON_stringify vs) @ CHR '']'' # r) = Parsed vs r"
  using assms
proof (induction vs arbitrary: n rule: list_nonempty_induct)
  case (single v)
  from single(2) obtain n' where n: "n = Suc n'" and lt: "2 * length (JSON_stringify v) < n'"
    by (cases n) auto
  have "parse_value n' (JSON_stringify v @ CHR '']'' # r) = Parsed v (CHR '']'' # r)"
    using single(1) lt by simp
  then show ?case by (simp add: n)
next
  case (cons v ws)
  have len: "length (commas (map JSON_stringify (v # ws)))
      = length (JSON_stringify v) + 1 + length (commas (map JSON_stringify ws))"
    using cons(1) by (simp add: commas_length_Cons)
  from cons(4) obtain n' where n: "n = Suc n'" by (cases n) auto
  have lt1: "2 * length (JSON_stringify v) < n'"
    using cons(4) n len by simp
  have lt2: "2 * length (commas (map JSON_stringify ws)) + 1 < n'"
    using cons(4) n len by simp
  have first: "parse_value n' (JSON_stringify v @ CHR '','' # commas (map JSON_stringify ws) @ CHR '']'' # r)
      = Parsed v (CHR '','' # commas (map JSON_stringify ws) @ CHR '']'' # r)"
    using cons(3) lt1 by simp
  have rest: "parse_elements n' (commas (map JSON_stringify ws) @ CHR '']'' # r) = Parsed ws r"
    using cons(2) [OF _ lt2] cons(3) by simp
  obtain w ws' where ws: "ws = w # ws'" using cons(1) by (cases ws) auto
  have sk: "skip_ws (commas (map JSON_stringify ws) @ CHR '']'' # r) = commas (map JSON_stringify ws) @ CHR '']'' # r"
  proof (cases ws')
    case Nil
    with ws show ?thesis using skip_ws_stringify [of w] by simp
  next
    case (Cons a list)
    with ws show ?thesis using skip_ws_stringify [of w] by simp
  qed
  have split: "commas (map JSON_stringify (v # ws)) @ CHR '']'' # r
      = JSON_stringify v @ CHR '','' # commas (map JSON_stringify ws) @ CHR '']'' # r"
    using ws by simp
  show ?case
    unfolding split n by (simp add: first sk rest)
qed

lemma parse_member_head:
  assumes "2 * length (JSON_stringify v) < n" and "number_end r"
    and "\<And>n r. 2 * length (JSON_stringify v) < n \<Longrightarrow> number_end r
           \<Longrightarrow> parse_value n (JSON_stringify v @ r) = Parsed v r"
  shows "parse_members (Suc n) (member_string (k, v) @ r) =
    (case skip_ws r of
       [] \<Rightarrow> SyntaxErr
     | c2 # cs2 \<Rightarrow>
         if c2 = CHR '','' then bind_parsed (parse_members n (skip_ws cs2)) (\<lambda>ms. Parsed ((k, v) # ms))
         else if c2 = CHR ''}'' then Parsed [(k, v)] cs2
         else SyntaxErr)"
proof -
  have v: "parse_value n (JSON_stringify v @ r) = Parsed v r"
    using assms by simp
  show ?thesis
    by (simp add: member_string_def QuoteJSONString_def parse_chars_quoted skip_ws_stringify v)
qed

lemma skip_ws_member: "skip_ws (member_string m @ r) = member_string m @ r"
  by (simp add: member_string_def QuoteJSONString_def)

lemma member_string_length: "3 + length (JSON_stringify (snd m)) \<le> length (member_string m)"
  by (simp add: member_string_def QuoteJSONString_def)

lemma parse_members_stringify:
  assumes "ms \<noteq> []"
    and "\<And>m n r. m \<in> set ms \<Longrightarrow> 2 * length (JSON_stringify (snd m)) < n \<Longrightarrow> number_end r
           \<Longrightarrow> parse_value n (JSON_stringify (snd m) @ r) = Parsed (snd m) r"
    and "2 * length (commas (map member_string ms)) + 1 < n"
  shows "parse_members n (commas (map member_string ms) @ CHR ''}'' # r) = Parsed ms r"
  using assms
proof (induction ms arbitrary: n rule: list_nonempty_induct)
  case (single m)
  from single(2) member_string_length [of m]
  obtain n' where n: "n = Suc n'" and lt: "2 * length (JSON_stringify (snd m)) < n'"
    by (cases n) auto
  have "parse_members (Suc n') (member_string (fst m, snd m) @ CHR ''}'' # r) = Parsed [m] r"
    using single(1) lt by (subst parse_member_head) simp_all
  then show ?case by (simp add: n)
next
  case (cons m ws)
  have len: "length (commas (map member_string (m # ws)))
      = length (member_string m) + 1 + length (commas (map member_string ws))"
    using cons(1) by (simp add: commas_length_Cons)
  from cons(4) obtain n' where n: "n = Suc n'" by (cases n) auto
  have lt1: "2 * length (JSON_stringify (snd m)) < n'"
    using cons(4) n len member_string_length [of m] by simp
  have lt2: "2 * length (commas (map member_string ws)) + 1 < n'"
    using cons(4) n len by simp
  have rest: "parse_members n' (commas (map member_string ws) @ CHR ''}'' # r) = Parsed ws r"
    using cons(2) [OF _ lt2] cons(3) by simp
  obtain w ws' where ws: "ws = w # ws'" using cons(1) by (cases ws) auto
  have sk: "skip_ws (commas (map member_string ws) @ CHR ''}'' # r) = commas (map member_string ws) @ CHR ''}'' # r"
  proof (cases ws')
    case Nil
    with ws show ?thesis using skip_ws_member [of w] by simp
  next
    case (Cons a list)
    with ws show ?thesis using skip_ws_member [of w] by simp
  qed
  have split: "commas (map member_string (m # ws)) @ CHR ''}'' # r
      = member_string (fst m, snd m) @ CHR '','' # commas (map member_string ws) @ CHR ''}'' # r"
    using ws by simp
  have "parse_members (Suc n') (member_string (fst m, snd m) @ CHR '','' # commas (map member_string ws) @ CHR ''}'' # r)
      = Parsed (m # ws) r"
    using cons(3) lt1 by (subst parse_member_head) (simp_all add: sk rest)
  then show ?case
    unfolding split n .
qed

lemma member_string_fun:
  "(\<lambda>m. QuoteJSONString (fst m) @ CHR '':'' # JSON_stringify (snd m)) = member_string"
  by (rule ext) (simp add: member_string_def)

lemma stringify_obj_members:
  "JSON_stringify (JObj ms) = CHR ''{'' # commas (map member_string ms) @ ''}''"
  by (simp add: member_string_fun)

lemma commas_start:
  assumes "xs \<noteq> []" and "\<And>x. x \<in> set xs \<Longrightarrow> \<exists>c cs. f x = c # cs \<and> P c"
  shows "\<exists>c cs. commas (map f xs) = c # cs \<and> P c"
proof -
  obtain x ys where xs: "xs = x # ys" using assms(1) by (cases xs) auto
  obtain c cs where "f x = c # cs" "P c" using assms(2) [of x] xs by auto
  then show ?thesis using xs by (cases ys) auto
qed

lemma parse_value_primitive_any:
  assumes "0 < n" and "number_end r" and "\<forall>vs. j \<noteq> JArr vs" and "\<forall>ms. j \<noteq> JObj ms"
  shows "parse_value n (JSON_stringify j @ r) = Parsed j r"
proof -
  from assms(1) obtain n' where "n = Suc n'" by (cases n) auto
  then show ?thesis using parse_value_primitive [OF assms(2-4)] by simp
qed

lemma parse_value_stringify:
  "2 * length (JSON_stringify j) < n \<Longrightarrow> number_end r
     \<Longrightarrow> parse_value n (JSON_stringify j @ r) = Parsed j r"
proof (induction j arbitrary: n r)
  case (JArr vs)
  from JArr(2) obtain n' where n: "n = Suc n'" by (cases n) auto
  show ?case
  proof (cases "vs = []")
    case True
    then show ?thesis by (simp add: n)
  next
    case False
    have lt: "2 * length (commas (map JSON_stringify vs)) + 1 < n'"
      using JArr(2) n by simp
    have el: "parse_elements n' (commas (map JSON_stringify vs) @ CHR '']'' # r) = Parsed vs r"
      using False JArr(1) lt by (intro parse_elements_stringify) simp_all
    obtain c cs where st: "commas (map JSON_stringify vs) = c # cs" "value_start c"
      using commas_start [OF False, of JSON_stringify value_start] stringify_start by blast
    then have "skip_ws (commas (map JSON_stringify vs) @ CHR '']'' # r) = c # cs @ CHR '']'' # r"
      by (simp add: skip_ws_start)
    moreover have "c \<noteq> CHR '']''" using st(2) value_start_not_close by blast
    ultimately show ?thesis
      using el st(1) by (simp add: n)
  qed
next
  case (JObj ms)
  from JObj(2) obtain n' where n: "n = Suc n'" by (cases n) auto
  show ?case
  proof (cases "ms = []")
    case True
    then show ?thesis by (simp add: n)
  next
    case False
    have lt: "2 * length (commas (map member_string ms)) + 1 < n'"
      using JObj(2) n by (simp add: stringify_obj_members del: JSON_stringify.simps)
    have ih: "\<And>m n r. m \<in> set ms \<Longrightarrow> 2 * length (JSON_stringify (snd m)) < n \<Longrightarrow> number_end r
           \<Longrightarrow> parse_value n (JSON_stringify (snd m) @ r) = Parsed (snd m) r"
    proof -
      fix m :: "string \<times> json" and n r
      assume a: "m \<in> set ms" "2 * length (JSON_stringify (snd m)) < n" "number_end r"
      have "snd m \<in> Basic_BNFs.snds m"
        by (cases m) (simp add: snds.intros)
      with a show "parse_value n (JSON_stringify (snd m) @ r) = Parsed (snd m) r"
        by (intro JObj(1) [of m "snd m" n r])
    qed
    have el: "parse_members n' (commas (map member_string ms) @ CHR ''}'' # r) = Parsed ms r"
      using False ih lt by (intro parse_members_stringify) simp_all
    have "\<And>m. \<exists>c cs. member_string m = c # cs \<and> c = CHR 0x22"
      by (simp add: member_string_def QuoteJSONString_def)
    then obtain c cs where st: "commas (map member_string ms) = c # cs" "c = CHR 0x22"
      using commas_start [OF False, of member_string "\<lambda>c. c = CHR 0x22"] by blast
    then show ?thesis
      using el by (simp add: n stringify_obj_members del: JSON_stringify.simps)
  qed
next
  case JNull
  then show ?case by (intro parse_value_primitive_any) auto
next
  case (JBool b)
  then show ?case by (intro parse_value_primitive_any) auto
next
  case (JNum i)
  then show ?case by (intro parse_value_primitive_any) auto
next
  case (JStr s)
  then show ?case by (intro parse_value_primitive_any) auto
qed

lemma JSON_parse_stringify: "JSON_parse (JSON_stringify j) = Parsed j []"
  using parse_value_stringify [of j "2 * length (JSON_stringify j) + 1" "[]"] skip_ws_stringify [of j "[]"]
  by (simp add: JSON_parse_def skip_ws_def)

subsection \<open>The fuel of \<^verbatim>\<open>JSON.parse\<close> never runs out\<close>

lemma shorter_simps [simp]:
  "shorter (Parsed v r) m = (length r < m)"
  "shorter SyntaxErr m"
  "shorter Unsupported m"
  "\<not> shorter OutOfFuel m"
  by (simp_all add: shorter_def)

lemma shorter_mono: "shorter p m \<Longrightarrow> m \<le> k \<Longrightarrow> shorter p k"
  by (cases p) simp_all

lemma shorter_bind:
  assumes "shorter p m" and "\<And>v r. p = Parsed v r \<Longrightarrow> length r < m \<Longrightarrow> shorter (f v r) k"
  shows "shorter (bind_parsed p f) k"
  using assms by (cases p) simp_all

lemma length_skip_ws: "length (skip_ws s) \<le> length s"
  by (simp add: skip_ws_def length_dropWhile_le)

lemma shorter_cons: "shorter p m \<Longrightarrow> m \<le> k \<Longrightarrow> shorter (bind_parsed p (\<lambda>s. Parsed (f s))) k"
  by (cases p) simp_all

lemma shorter_parse_chars: "shorter (parse_chars cs) (length cs)"
proof (induction cs rule: parse_chars.induct)
  case 1
  then show ?case by simp
next
  case (2 c cs)
  show ?case
  proof (cases "c = CHR 0x22")
    case True
    then show ?thesis by simp
  next
    case nq: False
    show ?thesis
    proof (cases "c = CHR 0x5C")
      case False
      show ?thesis
      proof (cases "of_char c < (0x20 :: nat)")
        case True
        with nq False show ?thesis by simp
      next
        case ge: False
        have "shorter (bind_parsed (parse_chars cs) (\<lambda>s. Parsed (c # s))) (length (c # cs))"
          by (rule shorter_cons [OF 2(3) [OF nq False ge]]) simp
        with nq False ge show ?thesis by simp
      qed
    next
      case True
      show ?thesis
      proof (cases cs)
        case Nil
        with nq True show ?thesis by simp
      next
        case (Cons e es)
        show ?thesis
        proof (cases "e = CHR ''u''")
          case False
          show ?thesis
          proof (cases "unescape e")
            case None
            with nq True Cons False show ?thesis by simp
          next
            case (Some d)
            have "shorter (parse_chars es) (length es)"
              using 2(2) [OF nq True Cons False Some] .
            then have "shorter (bind_parsed (parse_chars es) (\<lambda>s. Parsed (d # s))) (length (c # cs))"
              by (rule shorter_cons) (simp add: Cons)
            with nq True Cons False Some show ?thesis by simp
          qed
        next
          case u: True
          show ?thesis
          proof (cases "\<exists>h1 h2 h3 h4 r. es = h1 # h2 # h3 # h4 # r")
            case False
            then have "parse_chars (c # cs) = SyntaxErr"
              using nq True Cons u by (auto split: list.splits)
            then show ?thesis by simp
          next
            case ex: True
            then obtain h1 h2 h3 h4 r where es: "es = h1 # h2 # h3 # h4 # r" by blast
            show ?thesis
            proof (cases "hex4 h1 h2 h3 h4")
              case None
              with nq True Cons u es show ?thesis by simp
            next
              case (Some n)
              show ?thesis
              proof (cases "n < 256")
                case False
                with nq True Cons u es Some show ?thesis by simp
              next
                case lt: True
                have "shorter (parse_chars r) (length r)"
                  using 2(1) [OF nq True Cons u _ _ _ _ Some lt] es by simp
                then have "shorter (bind_parsed (parse_chars r) (\<lambda>s. Parsed (char_of n # s))) (length (c # cs))"
                  by (rule shorter_cons) (simp add: Cons es)
                with nq True Cons u es Some lt show ?thesis by simp
              qed
            qed
          qed
        qed
      qed
    qed
  qed
qed

lemma dropWhile_shorter: "takeWhile P xs \<noteq> [] \<Longrightarrow> length (dropWhile P xs) < length xs"
proof -
  assume ne: "takeWhile P xs \<noteq> []"
  have "length (takeWhile P xs) + length (dropWhile P xs) = length xs"
    by (metis length_append takeWhile_dropWhile_id)
  with ne show ?thesis by (cases "takeWhile P xs") simp_all
qed

lemma shorter_parse_number: "shorter (parse_number s) (length s)"
proof -
  let ?s1 = "if s \<noteq> [] \<and> hd s = CHR ''-'' then tl s else s"
  have a: "length ?s1 \<le> length s" by simp
  have b: "takeWhile is_digit ?s1 \<noteq> [] \<Longrightarrow> length (dropWhile is_digit ?s1) < length s"
    using dropWhile_shorter [of is_digit ?s1] a by linarith
  show ?thesis
    using b by (simp add: parse_number_def Let_def del: length_tl)
qed

lemma shorter_parse_literal: "shorter (parse_literal s) (length s)"
  by (cases s) (auto simp add: parse_literal_def)

lemma parse_fuel:
  "(2 * length s < n \<longrightarrow> shorter (parse_value n s) (length s))
   \<and> (2 * length s + 1 < n \<longrightarrow> shorter (parse_elements n s) (length s))
   \<and> (2 * length s + 1 < n \<longrightarrow> shorter (parse_members n s) (length s))"
proof (induction n arbitrary: s)
  case 0
  then show ?case by simp
next
  case (Suc n)
  have IHv: "\<And>s. 2 * length s < n \<Longrightarrow> shorter (parse_value n s) (length s)"
    and IHe: "\<And>s. 2 * length s + 1 < n \<Longrightarrow> shorter (parse_elements n s) (length s)"
    and IHm: "\<And>s. 2 * length s + 1 < n \<Longrightarrow> shorter (parse_members n s) (length s)"
    using Suc by blast+
  have v: "shorter (parse_value (Suc n) s) (length s)" if lt: "2 * length s < Suc n"
  proof (cases s)
    case Nil
    then show ?thesis by simp
  next
    case (Cons c cs)
    have arr: "shorter (case skip_ws cs of [] \<Rightarrow> SyntaxErr
             | d # ds \<Rightarrow> if d = CHR '']'' then Parsed (JArr []) ds
                 else bind_parsed (parse_elements n (d # ds)) (\<lambda>vs. Parsed (JArr vs))) (length s)"
    proof (cases "skip_ws cs")
      case Nil
      then show ?thesis by simp
    next
      case sk: (Cons d ds)
      have le: "length (d # ds) \<le> length cs"
        using length_skip_ws [of cs] sk by simp
      then have "shorter (parse_elements n (d # ds)) (length (d # ds))"
        using lt Cons by (intro IHe) simp
      then have "shorter (bind_parsed (parse_elements n (d # ds)) (\<lambda>vs. Parsed (JArr vs))) (length s)"
        using le Cons by (intro shorter_bind [where m = "length (d # ds)"]) simp_all
      then show ?thesis using sk le Cons by simp
    qed
    have obj: "shorter (case skip_ws cs of [] \<Rightarrow> SyntaxErr
             | d # ds \<Rightarrow> if d = CHR ''}'' then Parsed (JObj []) ds
                 else bind_parsed (parse_members n (d # ds)) (\<lambda>ms. Parsed (JObj ms))) (length s)"
    proof (cases "skip_ws cs")
      case Nil
      then show ?thesis by simp
    next
      case sk: (Cons d ds)
      have le: "length (d # ds) \<le> length cs"
        using length_skip_ws [of cs] sk by simp
      then have "shorter (parse_members n (d # ds)) (length (d # ds))"
        using lt Cons by (intro IHm) simp
      then have "shorter (bind_parsed (parse_members n (d # ds)) (\<lambda>ms. Parsed (JObj ms))) (length s)"
        using le Cons by (intro shorter_bind [where m = "length (d # ds)"]) simp_all
      then show ?thesis using sk le Cons by simp
    qed
    have str: "shorter (bind_parsed (parse_chars cs) (\<lambda>t. Parsed (JStr t))) (length s)"
      using shorter_parse_chars [of cs] Cons
      by (intro shorter_bind [where m = "length cs"]) simp_all
    show ?thesis
      using arr obj str shorter_parse_number [of s] shorter_parse_literal [of s] Cons
      by simp
  qed
  have e: "shorter (parse_elements (Suc n) s) (length s)" if lt: "2 * length s + 1 < Suc n"
  proof -
    have pv: "shorter (parse_value n s) (length s)"
      using lt by (intro IHv) simp
    have "shorter (case skip_ws r of [] \<Rightarrow> SyntaxErr
       | c # cs \<Rightarrow>
           if c = CHR '','' then
             bind_parsed (parse_elements n (skip_ws cs)) (\<lambda>vs. Parsed (v # vs))
           else if c = CHR '']'' then Parsed [v] cs
           else SyntaxErr) (length s)" if r: "length r < length s" for v r
    proof (cases "skip_ws r")
      case Nil
      then show ?thesis by simp
    next
      case (Cons c cs)
      have le: "length cs < length r"
        using length_skip_ws [of r] Cons by simp
      have le2: "length (skip_ws cs) \<le> length cs"
        by (rule length_skip_ws)
      have "shorter (parse_elements n (skip_ws cs)) (length (skip_ws cs))"
        using lt r le le2 by (intro IHe) simp
      then have "shorter (bind_parsed (parse_elements n (skip_ws cs)) (\<lambda>vs. Parsed (v # vs))) (length s)"
        using le le2 r by (intro shorter_bind [where m = "length (skip_ws cs)"]) simp_all
      then show ?thesis using Cons le r by simp
    qed
    then show ?thesis
      using pv by (simp only: parse_elements.simps) (rule shorter_bind [where m = "length s"], simp_all)
  qed
  have m: "shorter (parse_members (Suc n) s) (length s)" if lt: "2 * length s + 1 < Suc n"
  proof (cases s)
    case Nil
    then show ?thesis by simp
  next
    case (Cons q s1)
    have inner2: "shorter (case skip_ws r2 of [] \<Rightarrow> SyntaxErr
        | c2 # cs2 \<Rightarrow>
            if c2 = CHR '','' then
              bind_parsed (parse_members n (skip_ws cs2)) (\<lambda>ms. Parsed ((k, v) # ms))
            else if c2 = CHR ''}'' then Parsed [(k, v)] cs2
            else SyntaxErr) (length s)" if r2: "length r2 < length s" for k v r2
    proof (cases "skip_ws r2")
      case Nil
      then show ?thesis by simp
    next
      case sk: (Cons c2 cs2)
      have le: "length cs2 < length r2"
        using length_skip_ws [of r2] sk by simp
      have le2: "length (skip_ws cs2) \<le> length cs2"
        by (rule length_skip_ws)
      have "shorter (parse_members n (skip_ws cs2)) (length (skip_ws cs2))"
        using lt r2 le le2 by (intro IHm) simp
      then have "shorter (bind_parsed (parse_members n (skip_ws cs2)) (\<lambda>ms. Parsed ((k, v) # ms))) (length s)"
        using le le2 r2 by (intro shorter_bind [where m = "length (skip_ws cs2)"]) simp_all
      then show ?thesis using sk le r2 by simp
    qed
    have inner1: "shorter (case skip_ws r of [] \<Rightarrow> SyntaxErr
        | c # cs \<Rightarrow>
            if c \<noteq> CHR '':'' then SyntaxErr
            else bind_parsed (parse_value n (skip_ws cs)) (\<lambda>v r2.
              case skip_ws r2 of [] \<Rightarrow> SyntaxErr
              | c2 # cs2 \<Rightarrow>
                  if c2 = CHR '','' then
                    bind_parsed (parse_members n (skip_ws cs2)) (\<lambda>ms. Parsed ((k, v) # ms))
                  else if c2 = CHR ''}'' then Parsed [(k, v)] cs2
                  else SyntaxErr)) (length s)" if r: "length r < length s1" for k r
    proof (cases "skip_ws r")
      case Nil
      then show ?thesis by simp
    next
      case sk: (Cons c cs)
      have le: "length (skip_ws cs) < length s1"
        using length_skip_ws [of r] length_skip_ws [of cs] sk r by simp
      have "shorter (parse_value n (skip_ws cs)) (length (skip_ws cs))"
        using lt le Cons by (intro IHv) simp
      then have "shorter (bind_parsed (parse_value n (skip_ws cs)) (\<lambda>v r2.
              case skip_ws r2 of [] \<Rightarrow> SyntaxErr
              | c2 # cs2 \<Rightarrow>
                  if c2 = CHR '','' then
                    bind_parsed (parse_members n (skip_ws cs2)) (\<lambda>ms. Parsed ((k, v) # ms))
                  else if c2 = CHR ''}'' then Parsed [(k, v)] cs2
                  else SyntaxErr)) (length s)"
        using le Cons by (intro shorter_bind [where m = "length (skip_ws cs)"] inner2) simp_all
      then show ?thesis using sk by simp
    qed
    have "shorter (bind_parsed (parse_chars s1) (\<lambda>k r.
            case skip_ws r of [] \<Rightarrow> SyntaxErr
            | c # cs \<Rightarrow>
                if c \<noteq> CHR '':'' then SyntaxErr
                else bind_parsed (parse_value n (skip_ws cs)) (\<lambda>v r2.
                  case skip_ws r2 of [] \<Rightarrow> SyntaxErr
                  | c2 # cs2 \<Rightarrow>
                      if c2 = CHR '','' then
                        bind_parsed (parse_members n (skip_ws cs2)) (\<lambda>ms. Parsed ((k, v) # ms))
                      else if c2 = CHR ''}'' then Parsed [(k, v)] cs2
                      else SyntaxErr))) (length s)"
      using shorter_parse_chars [of s1]
      by (intro shorter_bind [where m = "length s1"] inner1) simp_all
    then show ?thesis using Cons by simp
  qed
  show ?case using v e m by blast
qed

lemma JSON_parse_fuel: "JSON_parse s \<noteq> OutOfFuel"
proof -
  have "shorter (parse_value (2 * length s + 1) (skip_ws s)) (length (skip_ws s))"
    using parse_fuel [of "skip_ws s" "2 * length s + 1"] length_skip_ws [of s] by simp
  then show ?thesis
    by (cases "parse_value (2 * length s + 1) (skip_ws s)") (simp_all add: JSON_parse_def)
qed

section \<open>Properties of the script\<close>

subsection \<open>Reading and writing the storage\<close>

lemma getItem_setItem [simp]:
  "getItem (setItem ls k v) k' = (if k' = k then Some v else getItem ls k')"
  by (simp add: getItem_def setItem_def)

lemma setItem_twice [simp]: "setItem (setItem ls k v) k w = setItem ls k w"
  by (simp add: setItem_def)

lemma todo_of_json_of_todo [simp]: "todo_of_json (json_of_todo t) = Some t"
  by (simp add: todo_of_json_def json_of_todo_def)

lemma todos_of_json_of_todos [simp]: "todos_of_json (map json_of_todo ts) = Some ts"
  by (induction ts) simp_all

lemma fetch_todos_written:
  "getItem ls ''todos'' = Some (JSON_stringify (json_of_todos ts)) \<Longrightarrow> fetch_todos ls = Todos ts"
  by (simp add: fetch_todos_def JSON_parse_stringify json_of_todos_def del: JSON_stringify.simps)

lemma fetch_todos_setItem_todos [simp]:
  "fetch_todos (setItem ls ''todos'' (JSON_stringify (json_of_todos ts))) = Todos ts"
  by (rule fetch_todos_written) simp

lemma fetch_todos_setItem_other [simp]:
  "k \<noteq> ''todos'' \<Longrightarrow> fetch_todos (setItem ls k v) = fetch_todos ls"
  by (simp add: fetch_todos_def)

lemma holds_fetch: "holds ls n ts \<Longrightarrow> fetch_todos ls = Todos ts"
  by (simp add: holds_def fetch_todos_written)

lemma holds_Number: "holds ls n ts \<Longrightarrow> Number (getItem ls ''uniqueId'') = Some n"
  by (simp add: holds_def Number_decimal)

lemma holds_inj: "holds ls n ts \<Longrightarrow> holds ls n' ts' \<Longrightarrow> n = n' \<and> ts = ts'"
  using holds_fetch [of ls n ts] holds_fetch [of ls n' ts'] holds_Number [of ls n ts] holds_Number [of ls n' ts']
  by simp

lemma incrementUniqueId_Number:
  "Number (getItem ls ''uniqueId'') = Some n \<Longrightarrow>
   incrementUniqueId ls = Returns (setItem ls ''uniqueId'' (decimal (n + 1)))"
  by (simp add: incrementUniqueId_def postfix_increment_def Number_def)

lemma addToStore_result:
  assumes "fetch_todos ls = Todos todos" and "Number (getItem ls ''uniqueId'') = Some n"
  shows "addToStore task ls =
    Returns (setItem (setItem ls ''todos''
        (JSON_stringify (json_of_todos (todos @ [\<lparr>todo_id = n, todo_task = task, todo_completed = False\<rparr>]))))
      ''uniqueId'' (decimal (n + 1)))"
proof -
  let ?ls1 = "setItem ls ''todos''
    (JSON_stringify (json_of_todos (todos @ [\<lparr>todo_id = n, todo_task = task, todo_completed = False\<rparr>])))"
  have "Number (getItem ?ls1 ''uniqueId'') = Some n"
    using assms(2) by simp
  then have "incrementUniqueId ?ls1 = Returns (setItem ?ls1 ''uniqueId'' (decimal (n + 1)))"
    by (rule incrementUniqueId_Number)
  then show ?thesis
    using assms by (simp add: addToStore_def)
qed

lemma addToStore_holds:
  assumes "fetch_todos ls = Todos todos" and "Number (getItem ls ''uniqueId'') = Some n"
  shows "\<exists>ls'. addToStore task ls = Returns ls' \<and>
    holds ls' (n + 1) (todos @ [\<lparr>todo_id = n, todo_task = task, todo_completed = False\<rparr>]) \<and>
    (\<forall>k. k \<noteq> ''todos'' \<and> k \<noteq> ''uniqueId'' \<longrightarrow> getItem ls' k = getItem ls k)"
  by (simp add: addToStore_result [OF assms] holds_def)

lemma decimal_0: "decimal 0 = ''0''"
  by code_simp


lemma startup_fresh:
  "startup fresh = Returns \<lparr>localStorage = [''uniqueId'' \<mapsto> ''0'', ''todos'' \<mapsto> ''[]''], todoList = []\<rparr>"
  by (simp add: startup_def fresh_def getItem_def setItem_def decimal_0)

lemma holds_initial: "holds [''uniqueId'' \<mapsto> ''0'', ''todos'' \<mapsto> ''[]''] 0 []"
  by (simp add: holds_def getItem_def decimal_0 json_of_todos_def)

subsection \<open>Looking up elements\<close>

lemma find_first_None_iff: "find_first P xs = None \<longleftrightarrow> (\<forall>x \<in> set xs. \<not> P x)"
  by (induction xs) auto

lemma find_first_Some:
  "find_first P xs = Some k \<Longrightarrow> k < length xs \<and> P (xs ! k) \<and> (\<forall>j < k. \<not> P (xs ! j))"
proof (induction xs arbitrary: k)
  case Nil
  then show ?case by simp
next
  case (Cons x xs)
  show ?case
  proof (cases "P x")
    case True
    with Cons.prems show ?thesis by simp
  next
    case False
    with Cons.prems obtain k' where k': "find_first P xs = Some k'" "k = Suc k'" by auto
    from Cons.IH [OF k'(1)] False k'(2) show ?thesis
      by (auto simp add: nth_Cons split: nat.splits)
  qed
qed

lemma find_first_append:
  "find_first P (xs @ ys) =
     (case find_first P xs of Some k \<Rightarrow> Some k | None \<Rightarrow> map_option (\<lambda>k. length xs + k) (find_first P ys))"
proof (induction xs)
  case Nil
  then show ?case by (cases "find_first P ys") simp_all
next
  case (Cons x xs)
  then show ?case
    by (cases "find_first P xs"; cases "find_first P ys") simp_all
qed

subsection \<open>Building the list at page load\<close>





subsection \<open>Appending and removing records\<close>

lemma new_records_Cons:
  "new_records n (task # tasks) =
     \<lparr>todo_id = n, todo_task = task, todo_completed = False\<rparr> # new_records (Suc n) tasks"
  by (simp add: new_records_def upt_rec)

lemma new_records_ids: "map todo_id (new_records n tasks) = [n..<n + length tasks]"
  by (simp add: new_records_def comp_def map_fst_zip_take)

lemma new_records_tasks: "map todo_task (new_records n tasks) = tasks"
  by (simp add: new_records_def comp_def)

lemma holds_addToStore:
  assumes "holds ls n ts"
  shows "\<exists>ls'. addToStore task ls = Returns ls'
    \<and> holds ls' (Suc n) (ts @ [\<lparr>todo_id = n, todo_task = task, todo_completed = False\<rparr>])"
  using addToStore_holds [OF holds_fetch [OF assms] holds_Number [OF assms], of task] by auto

lemma appendAll_holds:
  "holds ls n ts \<Longrightarrow>
   \<exists>ls'. appendAll tasks ls = Returns ls' \<and> holds ls' (n + length tasks) (ts @ new_records n tasks)"
proof (induction tasks arbitrary: ls n ts)
  case Nil
  then show ?case by (simp add: new_records_def)
next
  case (Cons task tasks)
  obtain ls1 where 1: "addToStore task ls = Returns ls1"
    "holds ls1 (Suc n) (ts @ [\<lparr>todo_id = n, todo_task = task, todo_completed = False\<rparr>])"
    using holds_addToStore [OF Cons.prems] by blast
  obtain ls' where 2: "appendAll tasks ls1 = Returns ls'"
    "holds ls' (Suc n + length tasks)
       ((ts @ [\<lparr>todo_id = n, todo_task = task, todo_completed = False\<rparr>]) @ new_records (Suc n) tasks)"
    using Cons.IH [OF 1(2)] by blast
  show ?case
    using 1(1) 2 by (simp add: new_records_Cons)
qed

lemma removeElement_after:
  assumes "fetch_todos (localStorage st) = Todos todos"
  shows "\<exists>st'. after (removeElement ident st) = Some st'
    \<and> localStorage st' = setItem (localStorage st) ''todos''
          (JSON_stringify (json_of_todos (filter (\<lambda>todo. todo_id todo \<noteq> ident) todos)))"
  using assms by (simp add: removeElement_def Let_def split: option.splits)

lemma removeElement_found:
  assumes "fetch_todos (localStorage st) = Todos todos" and "querySelector (todoList st) (decimal ident) = Some k"
  shows "removeElement ident st = Returns
    \<lparr>localStorage = setItem (localStorage st) ''todos''
        (JSON_stringify (json_of_todos (filter (\<lambda>todo. todo_id todo \<noteq> ident) todos))),
     todoList = take k (todoList st) @ drop (Suc k) (todoList st)\<rparr>"
  using assms by (simp add: removeElement_def Let_def)

lemma removeElement_not_found:
  assumes "fetch_todos (localStorage st) = Todos todos" and "querySelector (todoList st) (decimal ident) = None"
  shows "removeElement ident st = Throws TypeError
    \<lparr>localStorage = setItem (localStorage st) ''todos''
        (JSON_stringify (json_of_todos (filter (\<lambda>todo. todo_id todo \<noteq> ident) todos))),
     todoList = todoList st\<rparr>"
  using assms by (simp add: removeElement_def Let_def)



subsection \<open>Changing nodes of the page, and the toggle handler\<close>

lemma length_update_node [simp]: "length (update_node p f items) = length items"
  by (simp add: update_node_def)

lemma update_node_invalid: "node_at items p = None \<Longrightarrow> update_node p f items = items"
  by (auto simp add: node_at_def update_node_def list_update_beyond list_update_same_conv split: if_splits)

lemma node_at_update_node:
  "node_at (update_node p f items) q = (if q = p then map_option f (node_at items q) else node_at items q)"
proof (cases "node_at items p")
  case None
  then show ?thesis by (simp add: update_node_invalid)
next
  case (Some n)
  then have v: "fst p < length items" "snd p < length (children (items ! fst p))"
    by (auto simp add: node_at_def split: if_splits)
  show ?thesis
  proof (cases "q = p")
    case True
    with v show ?thesis by (simp add: node_at_def update_node_def)
  next
    case False
    then have "fst q \<noteq> fst p \<or> snd q \<noteq> snd p" by (auto simp add: prod_eq_iff)
    with v show ?thesis
      by (auto simp add: node_at_def update_node_def nth_list_update)
  qed
qed

lemma map_update_same: "(map f xs)[j := f (xs ! j)] = map f xs"
  by (metis list_update_id map_update)

lemma find_first_map: "find_first P xs = find_first (\<lambda>b. b) (map P xs)"
  by (induction xs) simp_all

lemma getElementById_cong:
  "map (\<lambda>l. map (has_id v) (children l)) items' = map (\<lambda>l. map (has_id v) (children l)) items
     \<Longrightarrow> getElementById items' v = getElementById items v"
proof (induction items arbitrary: items')
  case Nil
  then show ?case by simp
next
  case (Cons l ls)
  then obtain l' ls' where i: "items' = l' # ls'" by (cases items') auto
  with Cons.prems have h: "map (has_id v) (children l') = map (has_id v) (children l)"
    and t: "map (\<lambda>l. map (has_id v) (children l)) ls' = map (\<lambda>l. map (has_id v) (children l)) ls"
    by simp_all
  have "find_first (has_id v) (children l') = find_first (has_id v) (children l)"
    using h find_first_map [of "has_id v"] by metis
  then show ?case
    using Cons.IH [OF t] i by (simp split: option.splits)
qed

lemma getElementById_update_node:
  assumes "\<And>n. has_id v (f n) = has_id v n"
  shows "getElementById (update_node p f items) v = getElementById items v"
proof (rule getElementById_cong)
  show "map (\<lambda>l. map (has_id v) (children l)) (update_node p f items)
      = map (\<lambda>l. map (has_id v) (children l)) items"
  proof (cases "node_at items p")
    case None
    then show ?thesis by (simp add: update_node_invalid)
  next
    case (Some n)
    then have v: "fst p < length items" "snd p < length (children (items ! fst p))"
      by (auto simp add: node_at_def split: if_splits)
    then show ?thesis
      by (simp add: update_node_def map_update assms list_update_same_conv map_update_same)
  qed
qed

lemma has_id_set_checked [simp]: "has_id v (set_checked b n) = has_id v n"
  by (cases n) simp_all

lemma has_id_set_strike [simp]: "has_id v (set_strike b n) = has_id v n"
  by (cases n) simp_all

lemma has_id_Span: "has_id v n \<Longrightarrow> \<exists>t s. n = Span v t s"
  by (cases n) simp_all

lemma node_at_Cons_Suc: "node_at (l # ls) (Suc i, j) = node_at ls (i, j)"
  by (simp add: node_at_def)

lemma getElementById_Span:
  "getElementById items v = Some p \<Longrightarrow> \<exists>t s. node_at items p = Some (Span v t s)"
proof (induction items arbitrary: p)
  case Nil
  then show ?case by simp
next
  case (Cons l ls)
  show ?case
  proof (cases "find_first (has_id v) (children l)")
    case (Some j)
    with Cons.prems have p: "p = (0, j)" by simp
    from find_first_Some [OF Some] have "j < length (children l)" "has_id v (children l ! j)"
      by simp_all
    then show ?thesis
      using has_id_Span [of v "children l ! j"] p by (auto simp add: node_at_def)
  next
    case None
    with Cons.prems obtain p' where p': "getElementById ls v = Some p'" "p = (Suc (fst p'), snd p')"
      by auto
    from Cons.IH [OF p'(1)] show ?thesis
      using p'(2) node_at_Cons_Suc [of l ls "fst p'" "snd p'"] by simp
  qed
qed

lemma toggle_todos_twice [simp]: "toggle_todos ident (toggle_todos ident todos) = todos"
  by (induction todos) (simp_all add: toggle_todos_def)


lemma toggle_todos_ids [simp]: "map todo_id (toggle_todos ident todos) = map todo_id todos"
  by (induction todos) (simp_all add: toggle_todos_def)

lemma toggle_todos_tasks [simp]: "map todo_task (toggle_todos ident todos) = map todo_task todos"
  by (induction todos) (simp_all add: toggle_todos_def)

lemma length_toggle_todos [simp]: "length (toggle_todos ident todos) = length todos"
  by (simp add: toggle_todos_def)

lemma toggle_todos_nth:
  "k < length todos \<Longrightarrow> toggle_todos ident todos ! k =
     (if todo_id (todos ! k) = ident then (todos ! k)\<lparr>todo_completed := \<not> todo_completed (todos ! k)\<rparr>
      else todos ! k)"
  by (simp add: toggle_todos_def)

lemma find_toggle_todos:
  "find (\<lambda>todo. todo_id todo = ident) (toggle_todos ident todos) =
     map_option (\<lambda>todo. todo\<lparr>todo_completed := \<not> todo_completed todo\<rparr>) (find (\<lambda>todo. todo_id todo = ident) todos)"
  by (induction todos) (simp_all add: toggle_todos_def)

lemma toggleEventHandler_found:
  assumes "node_at (todoList st) e = Some (Toggle c i)"
    and "fetch_todos (localStorage st) = Todos todos"
    and "getElementById (todoList st) (''todo-'' @ decimal ident) = Some p"
  shows "toggleEventHandler e ident st = Returns
    \<lparr>localStorage = setItem (localStorage st) ''todos'' (JSON_stringify (json_of_todos (toggle_todos ident todos))),
     todoList = update_node p (set_strike (\<not> c)) (update_node e (set_checked (\<not> c)) (todoList st))\<rparr>"
  using assms by (simp add: toggleEventHandler_def update_view_def Let_def)



lemma toggleEventHandler_part000_not_found:
  assumes "node_at (todoList st) e = Some (Toggle c i)"
    and "fetch_todos (localStorage st) = Todos todos"
    and "getElementById (todoList st) (''todo-'' @ decimal ident) = None"
  shows "toggleEventHandler_part000 e ident st = Throws TypeError
    \<lparr>localStorage = setItem (localStorage st) ''todos'' (JSON_stringify (json_of_todos (toggle_todos ident todos))),
     todoList = update_node e (set_checked (\<not> c)) (todoList st)\<rparr>"
  using assms by (simp add: toggleEventHandler_part000_def update_view_def Let_def)

lemma toggled_page:
  assumes "node_at items e = Some (Toggle c i)"
    and "getElementById items v = Some p"
  shows "node_at (update_node p (set_strike b) (update_node e (set_checked b) items)) e = Some (Toggle b i)"
    and "getElementById (update_node p (set_strike b) (update_node e (set_checked b) items)) v = Some p"
    and "node_at items p = Some (Span v t s) \<Longrightarrow>
         node_at (update_node p (set_strike b) (update_node e (set_checked b) items)) p = Some (Span v t b)"
proof -
  obtain t' s' where sp: "node_at items p = Some (Span v t' s')"
    using getElementById_Span [OF assms(2)] by blast
  with assms(1) have ne: "p \<noteq> e" by auto
  show "node_at (update_node p (set_strike b) (update_node e (set_checked b) items)) e = Some (Toggle b i)"
    using assms(1) ne by (simp add: node_at_update_node)
  show "getElementById (update_node p (set_strike b) (update_node e (set_checked b) items)) v = Some p"
    using assms(2) by (simp add: getElementById_update_node)
  show "node_at items p = Some (Span v t s) \<Longrightarrow>
         node_at (update_node p (set_strike b) (update_node e (set_checked b) items)) p = Some (Span v t b)"
    using ne by (simp add: node_at_update_node)
qed







subsection \<open>States in which the page shows what the storage holds\<close>

lemma shown_simps [simp]:
  "todoList (shown n ts) = map rendered ts"
  "getItem (localStorage (shown n ts)) ''uniqueId'' = Some (decimal n)"
  "getItem (localStorage (shown n ts)) ''todos'' = Some (JSON_stringify (json_of_todos ts))"
  by (simp_all add: shown_def getItem_def)

lemma shown_holds: "holds (localStorage (shown n ts)) n ts"
  by (simp add: holds_def)

lemma shown_fetch [simp]: "fetch_todos (localStorage (shown n ts)) = Todos ts"
  by (rule holds_fetch [OF shown_holds])


lemma shown_set_todos:
  "(shown n ts)\<lparr>localStorage := setItem (localStorage (shown n ts)) ''todos'' (JSON_stringify (json_of_todos ts')),
     todoList := map rendered ts'\<rparr> = shown n ts'"
  by (simp add: shown_def setItem_def)

lemma startup_fresh_shown: "startup fresh = Returns (shown 0 [])"
  by (simp add: startup_fresh shown_def decimal_0 json_of_todos_def)

lemma todo_id_text_inj: "''todo-'' @ decimal a = ''todo-'' @ decimal b \<longleftrightarrow> a = b"
  using decimal_inj by auto

lemma decimal_eq_iff: "decimal a = decimal b \<longleftrightarrow> a = b"
  using decimal_inj by auto

lemma querySelector_rendered:
  "querySelector (map rendered ts) (decimal i) = find_first (\<lambda>t. todo_id t = i) ts"
  by (induction ts) (simp_all add: querySelector_def rendered_def decimal_eq_iff)

lemma getElementById_rendered:
  "getElementById (map rendered ts) (''todo-'' @ decimal i) =
     map_option (\<lambda>k. (k, Suc 0)) (find_first (\<lambda>t. todo_id t = i) ts)"
proof (induction ts)
  case Nil
  then show ?case by simp
next
  case (Cons t ts)
  show ?case
  proof (cases "todo_id t = i")
    case True
    then show ?thesis by (simp add: rendered_def)
  next
    case False
    then show ?thesis
      using Cons.IH by (simp add: rendered_def decimal_eq_iff option.map_comp comp_def)
  qed
qed

lemma find_first_SomeI:
  "k < length xs \<Longrightarrow> P (xs ! k) \<Longrightarrow> (\<forall>j < k. \<not> P (xs ! j)) \<Longrightarrow> find_first P xs = Some k"
proof (induction xs arbitrary: k)
  case Nil
  then show ?case by simp
next
  case (Cons x xs)
  show ?case
  proof (cases k)
    case 0
    with Cons.prems show ?thesis by simp
  next
    case (Suc k')
    with Cons.prems have "\<not> P x" by auto
    moreover have "find_first P xs = Some k'"
      using Cons.prems Suc by (intro Cons.IH) auto
    ultimately show ?thesis using Suc by simp
  qed
qed

lemma find_first_distinct_id:
  assumes "distinct (map todo_id ts)" and "k < length ts"
  shows "find_first (\<lambda>t. todo_id t = todo_id (ts ! k)) ts = Some k"
proof (rule find_first_SomeI [OF assms(2)])
  show "todo_id (ts ! k) = todo_id (ts ! k)" by simp
  show "\<forall>j < k. \<not> todo_id (ts ! j) = todo_id (ts ! k)"
  proof (intro allI impI)
    fix j assume "j < k"
    then have "j < length ts" "j \<noteq> k" using assms(2) by simp_all
    then show "\<not> todo_id (ts ! j) = todo_id (ts ! k)"
      using assms nth_eq_iff_index_eq [of "map todo_id ts" j k] by simp
  qed
qed

lemma node_at_rendered:
  "k < length ts \<Longrightarrow>
     node_at (map rendered ts) (k, 0) = Some (Toggle (todo_completed (ts ! k)) (todo_id (ts ! k)))
   \<and> node_at (map rendered ts) (k, Suc 0) =
       Some (Span (''todo-'' @ decimal (todo_id (ts ! k))) (todo_task (ts ! k)) (todo_completed (ts ! k)))
   \<and> node_at (map rendered ts) (k, 2) = Some (Button (todo_id (ts ! k)))"
  by (simp add: node_at_def rendered_def)

lemma node_at_rendered_cases:
  assumes "node_at (map rendered ts) p \<noteq> None"
  shows "fst p < length ts \<and> (snd p = 0 \<or> snd p = 1 \<or> snd p = 2)"
  using assms by (auto simp add: node_at_def rendered_def split: if_splits)

lemma list_update_last: "(xs @ [x])[length xs := y] = xs @ [y]"
  by simp

lemma find_first_absent_id:
  "i \<notin> todo_id ` set ts \<Longrightarrow> find_first (\<lambda>t. todo_id t = i) ts = None"
  by (auto simp add: find_first_None_iff)

lemma add_buttons:
  assumes "todoList st = map rendered ts @ [createListItem t]" and "todo_id t \<notin> todo_id ` set ts"
  shows "and_then (addToggleButton (todo_id t) (todo_completed t) st)
           (addDeleteButton (length ts) (todo_id t))
         = Returns (st\<lparr>todoList := map rendered (ts @ [t])\<rparr>)"
proof -
  have q: "querySelector (todoList st) (decimal (todo_id t)) = Some (length ts)"
  proof -
    have "find_first (\<lambda>l. data_id l = decimal (todo_id t)) (map rendered ts) = None"
      using querySelector_rendered [of ts "todo_id t"] find_first_absent_id [OF assms(2)]
      by (simp add: querySelector_def)
    then show ?thesis
      by (simp add: querySelector_def assms(1) find_first_append createListItem_def)
  qed
  have "addToggleButton (todo_id t) (todo_completed t) st =
      Returns (st\<lparr>todoList := map rendered ts @
        [\<lparr>data_id = decimal (todo_id t),
          children = [Toggle (todo_completed t) (todo_id t),
            Span (''todo-'' @ decimal (todo_id t)) (todo_task t) (todo_completed t)]\<rparr>]\<rparr>)"
    using q by (simp add: addToggleButton_def Let_def assms(1) createListItem_def nth_append list_update_append)
  then show ?thesis
    by (simp add: addDeleteButton_def nth_append rendered_def list_update_append)
qed

lemma displayExistingListItem_rendered:
  assumes "todoList st = map rendered ts" and "todo_id t \<notin> todo_id ` set ts"
  shows "displayExistingListItem t st = Returns (st\<lparr>todoList := map rendered (ts @ [t])\<rparr>)"
proof -
  let ?st1 = "st\<lparr>todoList := todoList st @ [createListItem t]\<rparr>"
  have "todoList ?st1 = map rendered ts @ [createListItem t]"
    using assms(1) by simp
  from add_buttons [OF this assms(2)] show ?thesis
    by (simp add: displayExistingListItem_def Let_def assms(1))
qed

lemma forEach_display_rendered:
  assumes "todoList st = map rendered pre" and "distinct (map todo_id (pre @ ts))"
  shows "forEach displayExistingListItem ts st = Returns (st\<lparr>todoList := map rendered (pre @ ts)\<rparr>)"
  using assms
proof (induction ts arbitrary: st pre)
  case Nil
  then show ?case by simp
next
  case (Cons t ts)
  have notin: "todo_id t \<notin> todo_id ` set pre"
    using Cons.prems(2) by auto
  have 1: "displayExistingListItem t st = Returns (st\<lparr>todoList := map rendered (pre @ [t])\<rparr>)"
    by (rule displayExistingListItem_rendered [OF Cons.prems(1) notin])
  have "forEach displayExistingListItem ts (st\<lparr>todoList := map rendered (pre @ [t])\<rparr>)
      = Returns (st\<lparr>todoList := map rendered (pre @ [t])\<rparr>\<lparr>todoList := map rendered ((pre @ [t]) @ ts)\<rparr>)"
    using Cons.prems(2) by (intro Cons.IH) simp_all
  with 1 show ?case by simp
qed

lemma stringify_todos_nonempty: "JSON_stringify (json_of_todos ts) \<noteq> []"
  by (simp add: json_of_todos_def)

lemma reload_shown:
  assumes "distinct (map todo_id ts)"
  shows "startup ((shown n ts)\<lparr>todoList := []\<rparr>) = Returns (shown n ts)"
proof -
  let ?st = "(shown n ts)\<lparr>todoList := []\<rparr>"
  have g: "getItem (localStorage ?st) ''todos'' = Some (JSON_stringify (json_of_todos ts))"
    by (simp del: JSON_stringify.simps)
  have f: "fetch_todos (localStorage ?st) = Todos ts"
    using shown_fetch [of n ts] by simp
  have "startup ?st = forEach displayExistingListItem ts ?st"
    using g f stringify_todos_nonempty [of ts] by (simp add: startup_def del: JSON_stringify.simps)
  also have "\<dots> = Returns (?st\<lparr>todoList := map rendered ([] @ ts)\<rparr>)"
    using assms by (intro forEach_display_rendered) simp_all
  also have "\<dots> = Returns (shown n ts)"
    by (simp add: shown_def)
  finally show ?thesis .
qed

lemma keydown_shown:
  assumes "v \<noteq> []" and "\<forall>t \<in> set ts. todo_id t < n"
  shows "keydown 13 v (shown n ts)
    = Returns (shown (Suc n) (ts @ [\<lparr>todo_id = n, todo_task = v, todo_completed = False\<rparr>]))"
proof -
  let ?t = "\<lparr>todo_id = n, todo_task = v, todo_completed = False\<rparr>"
  let ?st1 = "(shown n ts)\<lparr>todoList := todoList (shown n ts) @ [createListItem ?t]\<rparr>"
  have notin: "todo_id ?t \<notin> todo_id ` set ts"
    using assms(2) by auto
  have "todoList ?st1 = map rendered ts @ [createListItem ?t]"
    by simp
  from add_buttons [OF this notin]
  have b: "and_then (addToggleButton n False ?st1) (addDeleteButton (length ts) n)
      = Returns (?st1\<lparr>todoList := map rendered (ts @ [?t])\<rparr>)"
    by simp
  let ?st3 = "?st1\<lparr>todoList := map rendered (ts @ [?t])\<rparr>"
  have a: "addToStore v (localStorage ?st3)
      = Returns (setItem (setItem (localStorage ?st3) ''todos''
          (JSON_stringify (json_of_todos (ts @ [?t])))) ''uniqueId'' (decimal (n + 1)))"
    by (rule addToStore_result) (simp_all add: Number_decimal)
  have s: "in_storage (addToStore v) ?st3 = Returns (shown (Suc n) (ts @ [?t]))"
    unfolding in_storage_def a by (simp add: shown_def setItem_def fun_upd_twist)
  have "addNewListItem v (shown n ts) =
      and_then (and_then (addToggleButton n False ?st1) (addDeleteButton (length ts) n))
        (in_storage (addToStore v))"
    by (cases "addToggleButton n False ?st1") (simp_all add: addNewListItem_def Let_def Number_decimal)
  then have "addNewListItem v (shown n ts) = Returns (shown (Suc n) (ts @ [?t]))"
    unfolding b using s by simp
  then show ?thesis
    using assms(1) by (simp add: keydown_def)
qed

lemma toggle_todos_distinct:
  assumes "distinct (map todo_id ts)" and "k < length ts"
  shows "toggle_todos (todo_id (ts ! k)) ts = ts[k := (ts ! k)\<lparr>todo_completed := \<not> todo_completed (ts ! k)\<rparr>]"
proof (rule nth_equalityI)
  show "length (toggle_todos (todo_id (ts ! k)) ts)
      = length (ts[k := (ts ! k)\<lparr>todo_completed := \<not> todo_completed (ts ! k)\<rparr>])"
    by simp
next
  fix j assume "j < length (toggle_todos (todo_id (ts ! k)) ts)"
  then have j: "j < length ts" by simp
  have "todo_id (ts ! j) = todo_id (ts ! k) \<longleftrightarrow> j = k"
    using assms j nth_eq_iff_index_eq [of "map todo_id ts" j k] by simp
  then show "toggle_todos (todo_id (ts ! k)) ts ! j
      = ts[k := (ts ! k)\<lparr>todo_completed := \<not> todo_completed (ts ! k)\<rparr>] ! j"
    using j by (simp add: toggle_todos_nth nth_list_update)
qed

lemma toggled_rendered:
  assumes "k < length ts"
  shows "update_node (k, Suc 0) (set_strike b) (update_node (k, 0) (set_checked b) (map rendered ts))
    = map rendered (ts[k := (ts ! k)\<lparr>todo_completed := b\<rparr>])"
  using assms by (simp add: update_node_def map_update rendered_def)

lemma click_toggle_shown:
  assumes "distinct (map todo_id ts)" and "k < length ts"
  shows "click (k, 0) (shown n ts) = Returns (shown n (toggle_todos (todo_id (ts ! k)) ts))"
proof -
  let ?i = "todo_id (ts ! k)"
  let ?c = "todo_completed (ts ! k)"
  have n0: "node_at (todoList (shown n ts)) (k, 0) = Some (Toggle ?c ?i)"
    using node_at_rendered [OF assms(2)] by simp
  have g: "getElementById (todoList (shown n ts)) (''todo-'' @ decimal ?i) = Some (k, Suc 0)"
    using getElementById_rendered [of ts ?i] find_first_distinct_id [OF assms] by simp
  have "click (k, 0) (shown n ts) = toggleEventHandler (k, 0) ?i (shown n ts)"
    using n0 by (simp add: click_def)
  also have "\<dots> = Returns
    \<lparr>localStorage = setItem (localStorage (shown n ts)) ''todos'' (JSON_stringify (json_of_todos (toggle_todos ?i ts))),
     todoList = update_node (k, Suc 0) (set_strike (\<not> ?c)) (update_node (k, 0) (set_checked (\<not> ?c)) (todoList (shown n ts)))\<rparr>"
    by (rule toggleEventHandler_found [OF n0 shown_fetch g])
  also have "\<dots> = Returns (shown n (toggle_todos ?i ts))"
    using toggled_rendered [OF assms(2), of "\<not> ?c"] toggle_todos_distinct [OF assms]
    by (simp add: shown_def setItem_def)
  finally show ?thesis .
qed

lemma filter_distinct_nth:
  assumes "distinct (map todo_id ts)" and "k < length ts"
  shows "filter (\<lambda>todo. todo_id todo \<noteq> todo_id (ts ! k)) ts = take k ts @ drop (Suc k) ts"
proof -
  have ts: "ts = take k ts @ ts ! k # drop (Suc k) ts"
    using assms(2) by (simp add: id_take_nth_drop)
  have d: "distinct (map todo_id (take k ts @ ts ! k # drop (Suc k) ts))"
    using assms(1) ts by simp
  then have "\<forall>x \<in> set (take k ts) \<union> set (drop (Suc k) ts). todo_id x \<noteq> todo_id (ts ! k)"
    by (auto simp add: image_iff)
  then have "filter (\<lambda>todo. todo_id todo \<noteq> todo_id (ts ! k)) (take k ts @ ts ! k # drop (Suc k) ts)
      = take k ts @ drop (Suc k) ts"
    by (simp add: filter_id_conv)
  with ts show ?thesis by simp
qed

lemma click_button_shown:
  assumes "distinct (map todo_id ts)" and "k < length ts"
  shows "click (k, 2) (shown n ts) = Returns (shown n (filter (\<lambda>todo. todo_id todo \<noteq> todo_id (ts ! k)) ts))"
proof -
  let ?i = "todo_id (ts ! k)"
  have n2: "node_at (todoList (shown n ts)) (k, 2) = Some (Button ?i)"
    using node_at_rendered [OF assms(2)] by simp
  have q: "querySelector (todoList (shown n ts)) (decimal ?i) = Some k"
    by (simp add: querySelector_rendered find_first_distinct_id [OF assms])
  have "click (k, 2) (shown n ts) = removeElement ?i (shown n ts)"
    using n2 by (simp add: click_def)
  also have "\<dots> = Returns
    \<lparr>localStorage = setItem (localStorage (shown n ts)) ''todos''
        (JSON_stringify (json_of_todos (filter (\<lambda>todo. todo_id todo \<noteq> ?i) ts))),
     todoList = take k (todoList (shown n ts)) @ drop (Suc k) (todoList (shown n ts))\<rparr>"
    by (rule removeElement_found [OF shown_fetch q])
  also have "\<dots> = Returns (shown n (filter (\<lambda>todo. todo_id todo \<noteq> ?i) ts))"
    unfolding filter_distinct_nth [OF assms]
    by (simp add: shown_def setItem_def take_map drop_map)
  finally show ?thesis .
qed

lemma click_span_shown:
  assumes "k < length ts"
  shows "click (k, Suc 0) (shown n ts) = Returns (shown n ts)"
  using node_at_rendered [OF assms] by (simp add: click_def)

lemma sorted_ids_distinct: "sorted_wrt (<) (map todo_id ts) \<Longrightarrow> distinct (map todo_id ts)"
  using strict_sorted_iff by blast

lemma reachable_shown:
  "reachable st \<Longrightarrow>
     \<exists>n ts. st = shown n ts \<and> sorted_wrt (<) (map todo_id ts) \<and> (\<forall>t \<in> set ts. todo_id t < n)"
proof (induction rule: reachable.induct)
  case (loaded st)
  then have "st = shown 0 []" by (simp add: startup_fresh_shown)
  then show ?case by (intro exI [of _ 0] exI [of _ "[]"]) simp
next
  case (key st keyCode v st')
  then obtain n ts where st: "st = shown n ts" and s: "sorted_wrt (<) (map todo_id ts)"
    and b: "\<forall>t \<in> set ts. todo_id t < n" by blast
  show ?case
  proof (cases "keyCode = 13 \<and> v \<noteq> []")
    case True
    let ?ts' = "ts @ [\<lparr>todo_id = n, todo_task = v, todo_completed = False\<rparr>]"
    have "keydown keyCode v st = Returns (shown (Suc n) ?ts')"
      using keydown_shown [OF _ b, of v] True st by simp
    with key.hyps(2) have st': "st' = shown (Suc n) ?ts'" by simp
    have "sorted_wrt (<) (map todo_id ?ts')"
      using s b by (simp add: sorted_wrt_append)
    moreover have "\<forall>t \<in> set ?ts'. todo_id t < Suc n"
      using b by (auto simp add: less_Suc_eq)
    ultimately show ?thesis using st' by blast
  next
    case False
    then have "keydown keyCode v st = Returns st" by (auto simp add: keydown_def)
    with key.hyps(2) have "st' = st" by simp
    with st s b show ?thesis by blast
  qed
next
  case (clicked st p st')
  then obtain n ts where st: "st = shown n ts" and s: "sorted_wrt (<) (map todo_id ts)"
    and b: "\<forall>t \<in> set ts. todo_id t < n" by blast
  have d: "distinct (map todo_id ts)" by (rule sorted_ids_distinct [OF s])
  from clicked.hyps(2) st have "node_at (map rendered ts) p \<noteq> None" by simp
  from node_at_rendered_cases [OF this]
  have k: "fst p < length ts" and j: "snd p = 0 \<or> snd p = 1 \<or> snd p = 2" by simp_all
  obtain k where p1: "fst p = k" by simp
  from j consider "p = (k, 0)" | "p = (k, Suc 0)" | "p = (k, 2)"
    using p1 by (cases p) auto
  then show ?case
  proof cases
    case 1
    let ?ts' = "toggle_todos (todo_id (ts ! k)) ts"
    have "click p st = Returns (shown n ?ts')"
      using click_toggle_shown [OF d, of k n] k p1 1 st by simp
    with clicked.hyps(3) have st': "st' = shown n ?ts'" by simp
    have "\<forall>t \<in> set ?ts'. todo_id t < n"
    proof
      fix t assume "t \<in> set ?ts'"
      then have "todo_id t \<in> set (map todo_id ?ts')" by (simp del: toggle_todos_ids)
      then have "todo_id t \<in> todo_id ` set ts" by simp
      with b show "todo_id t < n" by auto
    qed
    with st' s show ?thesis by (intro exI [of _ n] exI [of _ ?ts']) simp
  next
    case 2
    have "click p st = Returns (shown n ts)"
      using click_span_shown [of k ts n] k p1 2 st by simp
    with clicked.hyps(3) have "st' = shown n ts" by simp
    with s b show ?thesis by blast
  next
    case 3
    let ?ts' = "filter (\<lambda>todo. todo_id todo \<noteq> todo_id (ts ! k)) ts"
    have "click p st = Returns (shown n ?ts')"
      using click_button_shown [OF d, of k n] k p1 3 st by simp
    with clicked.hyps(3) have st': "st' = shown n ?ts'" by simp
    have "sorted_wrt (<) (map todo_id ?ts')"
      using s by (simp add: sorted_wrt_map sorted_wrt_filter)
    with st' b show ?thesis by (intro exI [of _ n] exI [of _ ?ts']) simp
  qed
next
  case (reloaded st st')
  then obtain n ts where st: "st = shown n ts" and s: "sorted_wrt (<) (map todo_id ts)"
    and b: "\<forall>t \<in> set ts. todo_id t < n" by blast
  have "startup (st\<lparr>todoList := []\<rparr>) = Returns (shown n ts)"
    using reload_shown [OF sorted_ids_distinct [OF s], of n] st by simp
  with reloaded.hyps(2) have "st' = shown n ts" by simp
  with s b show ?case by blast
qed



lemma reachable_steps_return:
  assumes "reachable st"
  shows "\<exists>st'. keydown keyCode v st = Returns st'"
    and "node_at (todoList st) p \<noteq> None \<Longrightarrow> \<exists>st'. click p st = Returns st'"
    and "\<exists>st'. startup (st\<lparr>todoList := []\<rparr>) = Returns st'"
proof -
  from reachable_shown [OF assms]
  obtain n ts where st: "st = shown n ts" and s: "sorted_wrt (<) (map todo_id ts)"
    and b: "\<forall>t \<in> set ts. todo_id t < n" by blast
  have d: "distinct (map todo_id ts)" by (rule sorted_ids_distinct [OF s])
  show "\<exists>st'. keydown keyCode v st = Returns st'"
  proof (cases "keyCode = 13 \<and> v \<noteq> []")
    case True
    then show ?thesis using keydown_shown [OF _ b, of v] st by simp
  next
    case False
    then show ?thesis by (auto simp add: keydown_def)
  qed
  show "\<exists>st'. startup (st\<lparr>todoList := []\<rparr>) = Returns st'"
    using reload_shown [OF d, of n] st by simp
  show "\<exists>st'. click p st = Returns st'" if "node_at (todoList st) p \<noteq> None"
  proof -
    from that st have ne: "node_at (map rendered ts) p \<noteq> None" by simp
    from node_at_rendered_cases [OF ne]
    have k: "fst p < length ts" and j: "snd p = 0 \<or> snd p = 1 \<or> snd p = 2" by simp_all
    from j consider "p = (fst p, 0)" | "p = (fst p, Suc 0)" | "p = (fst p, 2)"
      by (cases p) auto
    then show ?thesis
    proof cases
      case 1
      then show ?thesis using click_toggle_shown [OF d k, of n] st by (metis)
    next
      case 2
      then show ?thesis using click_span_shown [OF k, of n] st by (metis)
    next
      case 3
      then show ?thesis using click_button_shown [OF d k, of n] st by (metis)
    qed
  qed
qed

subsection \<open>Example inputs\<close>


lemma shown_one_item:
  "fetch_todos (localStorage (shown 1 [\<lparr>todo_id = 0, todo_task = ''a'', todo_completed = False\<rparr>]))
     = Todos [\<lparr>todo_id = 0, todo_task = ''a'', todo_completed = False\<rparr>]"
  "node_at (todoList (shown 1 [\<lparr>todo_id = 0, todo_task = ''a'', todo_completed = False\<rparr>])) (0, 0)
     = Some (Toggle False 0)"
  "node_at (todoList (shown 1 [\<lparr>todo_id = 0, todo_task = ''a'', todo_completed = False\<rparr>])) (0, 1)
     = Some (Span ''todo-0'' ''a'' False)"
  "getElementById (todoList (shown 1 [\<lparr>todo_id = 0, todo_task = ''a'', todo_completed = False\<rparr>]))
     (''todo-'' @ decimal 0) = Some (0, 1)"
proof -
  let ?t = "\<lparr>todo_id = 0, todo_task = ''a'', todo_completed = False\<rparr>"
  show "fetch_todos (localStorage (shown 1 [?t])) = Todos [?t]"
    by (rule shown_fetch)
  show "node_at (todoList (shown 1 [?t])) (0, 0) = Some (Toggle False 0)"
    by (simp add: node_at_def rendered_def)
  show "node_at (todoList (shown 1 [?t])) (0, 1) = Some (Span ''todo-0'' ''a'' False)"
    by (simp add: node_at_def rendered_def decimal_0)
  show "getElementById (todoList (shown 1 [?t])) (''todo-'' @ decimal 0) = Some (0, 1)"
    by (simp add: rendered_def)
qed

lemma toggle_one_item:
  "toggleEventHandler (0, 0) 0 (shown 1 [\<lparr>todo_id = 0, todo_task = ''a'', todo_completed = False\<rparr>])
     = Returns (shown 1 [\<lparr>todo_id = 0, todo_task = ''a'', todo_completed = True\<rparr>])"
proof -
  let ?t = "\<lparr>todo_id = 0, todo_task = ''a'', todo_completed = False\<rparr>"
  have "click (0, 0) (shown 1 [?t]) = Returns (shown 1 (toggle_todos (todo_id ([?t] ! 0)) [?t]))"
    by (rule click_toggle_shown) simp_all
  moreover have "click (0, 0) (shown 1 [?t]) = toggleEventHandler (0, 0) 0 (shown 1 [?t])"
    using shown_one_item(2) by (simp add: click_def)
  ultimately show ?thesis
    by (simp add: toggle_todos_def)
qed


section \<open>The claims\<close>

subsection \<open>Ids issued by a run of appends\<close>

text \<open>
  C1. Start from the storage a first page load leaves behind (counter 0, no records) and call
  \<^verbatim>\<open>addToStore\<close> once for each text of any list \<open>tasks\<close>. Every call returns normally.
  Afterwards the storage holds one record per call, in call order, the record of call
  number \<open>k\<close> (counting from 0) having id \<open>k\<close>: the ids are pairwise distinct and strictly
  increasing in call order. The counter is the number of calls, strictly greater than every
  id issued. As \<open>tasks\<close> is arbitrary, this holds after each append of a longer run.
\<close>

theorem appendAll_ids:
  "\<exists>st ls' todos. startup fresh = Returns st
     \<and> appendAll tasks (localStorage st) = Returns ls'
     \<and> fetch_todos ls' = Todos todos
     \<and> map todo_task todos = tasks
     \<and> map todo_id todos = [0..<length tasks]
     \<and> distinct (map todo_id todos)
     \<and> sorted_wrt (<) (map todo_id todos)
     \<and> Number (getItem ls' ''uniqueId'') = Some (length tasks)
     \<and> (\<forall>t \<in> set todos. todo_id t < length tasks)"
proof -
  obtain ls' where a: "appendAll tasks [''uniqueId'' \<mapsto> ''0'', ''todos'' \<mapsto> ''[]''] = Returns ls'"
    "holds ls' (0 + length tasks) ([] @ new_records 0 tasks)"
    using appendAll_holds [OF holds_initial] by blast
  let ?todos = "new_records 0 tasks"
  have ids: "map todo_id ?todos = [0..<length tasks]"
    using new_records_ids [of 0 tasks] by simp
  have "\<forall>t \<in> set ?todos. todo_id t \<in> set (map todo_id ?todos)"
    by simp
  then have bound: "\<forall>t \<in> set ?todos. todo_id t < length tasks"
    unfolding ids by simp
  have "distinct (map todo_id ?todos)" "sorted_wrt (<) (map todo_id ?todos)"
    unfolding ids by simp_all
  then show ?thesis
    using a holds_fetch [OF a(2)] holds_Number [OF a(2)] ids bound new_records_tasks [of 0 tasks] startup_fresh
    by (intro exI [of _ "\<lparr>localStorage = [''uniqueId'' \<mapsto> ''0'', ''todos'' \<mapsto> ''[]''], todoList = []\<rparr>"]
        exI [of _ ls'] exI [of _ ?todos]) simp
qed

theorem appendAll_ids_witness:
  "\<exists>st ls' todos. startup fresh = Returns st
     \<and> appendAll [''a'', ''b'', ''c''] (localStorage st) = Returns ls'
     \<and> fetch_todos ls' = Todos todos
     \<and> map todo_task todos = [''a'', ''b'', ''c'']
     \<and> map todo_id todos = [0, 1, 2]
     \<and> Number (getItem ls' ''uniqueId'') = Some 3"
proof -
  have "[0..<length [''a'', ''b'', ''c'']] = [0, 1, 2]"
    by (simp add: upt_rec)
  then show ?thesis
    using appendAll_ids [of "[''a'', ''b'', ''c'']"] by auto
qed

subsection \<open>Appending a task\<close>



subsection \<open>Removing a record\<close>



text \<open>
  C4, as stated, fails: with nothing stored and nothing on the page, \<^verbatim>\<open>removeElement(0)\<close>
  raises \<^verbatim>\<open>TypeError\<close>, because \<^verbatim>\<open>querySelector\<close> returns \<^verbatim>\<open>null\<close> and line 165
  reads \<^verbatim>\<open>elem.parentNode\<close>.
\<close>

theorem removeElement_absent_counterexample:
  "removeElement 0 \<lparr>localStorage = [''uniqueId'' \<mapsto> ''0'', ''todos'' \<mapsto> ''[]''], todoList = []\<rparr>
     = Throws TypeError \<lparr>localStorage = [''uniqueId'' \<mapsto> ''0'', ''todos'' \<mapsto> ''[]''], todoList = []\<rparr>"
proof -
  let ?ls = "[''uniqueId'' \<mapsto> ''0'', ''todos'' \<mapsto> ''[]'']"
  have f: "fetch_todos (localStorage \<lparr>localStorage = ?ls, todoList = []\<rparr>) = Todos []"
    using holds_fetch [OF holds_initial] by simp
  have q: "querySelector (todoList \<lparr>localStorage = ?ls, todoList = []\<rparr>) (decimal 0) = None"
    by (simp add: querySelector_def)
  have "setItem ?ls ''todos'' (JSON_stringify (json_of_todos [])) = ?ls"
    by (simp add: setItem_def json_of_todos_def)
  then show ?thesis
    using removeElement_not_found [OF f q] by simp
qed

text \<open>
  C4, amended. On a storage that holds task records, \<^verbatim>\<open>removeElement(id)\<close> returns
  normally whenever a list item with that \<^verbatim>\<open>data-id\<close> is on the page, whether or not a
  record with the id is stored. When no such list item is on the page it raises
  \<^verbatim>\<open>TypeError\<close>, after having written the filtered list. Its effect on the stored list is
  idempotent: a second call (which throws, if the first one removed the list item) leaves
  the stored list as the first call left it. In the states the application reaches, every
  click on a delete button finds its list item, so the handler returns normally there.
\<close>

theorem removeElement_completes:
  assumes "fetch_todos (localStorage st) = Todos todos"
  shows "(querySelector (todoList st) (decimal ident) \<noteq> None \<longrightarrow>
            (\<exists>st'. removeElement ident st = Returns st'))
     \<and> (querySelector (todoList st) (decimal ident) = None \<longrightarrow>
            (\<exists>st'. removeElement ident st = Throws TypeError st'
               \<and> fetch_todos (localStorage st') = Todos (filter (\<lambda>todo. todo_id todo \<noteq> ident) todos)))
     \<and> (\<exists>st1 st2. after (removeElement ident st) = Some st1
            \<and> after (removeElement ident st1) = Some st2
            \<and> fetch_todos (localStorage st1) = Todos (filter (\<lambda>todo. todo_id todo \<noteq> ident) todos)
            \<and> fetch_todos (localStorage st2) = fetch_todos (localStorage st1))
     \<and> (reachable st \<and> node_at (todoList st) p = Some (Button ident) \<longrightarrow>
            (\<exists>st'. removeElement ident st = Returns st'))"
proof (intro conjI impI)
  assume "querySelector (todoList st) (decimal ident) \<noteq> None"
  then obtain k where "querySelector (todoList st) (decimal ident) = Some k" by blast
  from removeElement_found [OF assms this] show "\<exists>st'. removeElement ident st = Returns st'"
    by blast
next
  assume "querySelector (todoList st) (decimal ident) = None"
  from removeElement_not_found [OF assms this]
  show "\<exists>st'. removeElement ident st = Throws TypeError st'
      \<and> fetch_todos (localStorage st') = Todos (filter (\<lambda>todo. todo_id todo \<noteq> ident) todos)"
    by simp
next
  let ?todos' = "filter (\<lambda>todo. todo_id todo \<noteq> ident) todos"
  obtain st1 where 1: "after (removeElement ident st) = Some st1"
    "localStorage st1 = setItem (localStorage st) ''todos'' (JSON_stringify (json_of_todos ?todos'))"
    using removeElement_after [OF assms] by blast
  have f1: "fetch_todos (localStorage st1) = Todos ?todos'"
    by (simp add: 1(2))
  obtain st2 where 2: "after (removeElement ident st1) = Some st2"
    "localStorage st2 = setItem (localStorage st1) ''todos''
       (JSON_stringify (json_of_todos (filter (\<lambda>todo. todo_id todo \<noteq> ident) ?todos')))"
    using removeElement_after [OF f1] by blast
  have "fetch_todos (localStorage st2) = Todos ?todos'"
    by (simp add: 2(2))
  with 1(1) 2(1) f1 show "\<exists>st1 st2. after (removeElement ident st) = Some st1
      \<and> after (removeElement ident st1) = Some st2
      \<and> fetch_todos (localStorage st1) = Todos ?todos'
      \<and> fetch_todos (localStorage st2) = fetch_todos (localStorage st1)"
    by auto
next
  assume "reachable st \<and> node_at (todoList st) p = Some (Button ident)"
  then have r: "reachable st" and n: "node_at (todoList st) p = Some (Button ident)"
    by simp_all
  from reachable_steps_return(2) [OF r, of p] n
  obtain st' where "click p st = Returns st'" by auto
  with n show "\<exists>st'. removeElement ident st = Returns st'"
    by (simp add: click_def)
qed

theorem removeElement_completes_witness:
  "\<exists>st'. removeElement 0
      \<lparr>localStorage = [''uniqueId'' \<mapsto> ''0'', ''todos'' \<mapsto> ''[]''],
       todoList = [rendered \<lparr>todo_id = 0, todo_task = ''a'', todo_completed = False\<rparr>]\<rparr> = Returns st'"
proof -
  let ?st = "\<lparr>localStorage = [''uniqueId'' \<mapsto> ''0'', ''todos'' \<mapsto> ''[]''],
       todoList = [rendered \<lparr>todo_id = 0, todo_task = ''a'', todo_completed = False\<rparr>]\<rparr>"
  have f: "fetch_todos (localStorage ?st) = Todos []"
    using holds_fetch [OF holds_initial] by simp
  have "querySelector (todoList ?st) (decimal 0) \<noteq> None"
    by (simp add: querySelector_def rendered_def)
  with removeElement_completes [OF f, of 0] show ?thesis
    by blast
qed

subsection \<open>Page load\<close>




subsection \<open>Toggling a record\<close>

text \<open>
  C6. Let the storage hold task records and let the click be one the page can deliver: the
  event target is a checkbox and the text element \<^verbatim>\<open>todo-\<close>\<open>id\<close> is on the page. Then
  \<^verbatim>\<open>toggleEventHandler\<close> returns normally and leaves the storage holding the same records
  in the same places, except that \<^verbatim>\<open>completed\<close> is negated in every record whose id is
  \<open>id\<close>; every other record is unchanged. A second click returns normally too and leaves
  the storage holding the original list. (Neither distinct ids nor the presence of \<open>id\<close>
  in the list is needed.)
\<close>

theorem toggle_twice_restores:
  assumes "fetch_todos (localStorage st) = Todos todos"
    and "node_at (todoList st) e = Some (Toggle c i)"
    and "getElementById (todoList st) (''todo-'' @ decimal ident) = Some p"
  shows "\<exists>st1 st2 todos1. toggleEventHandler e ident st = Returns st1
     \<and> fetch_todos (localStorage st1) = Todos todos1
     \<and> length todos1 = length todos
     \<and> (\<forall>k < length todos. todos1 ! k =
           (if todo_id (todos ! k) = ident
            then (todos ! k)\<lparr>todo_completed := \<not> todo_completed (todos ! k)\<rparr>
            else todos ! k))
     \<and> toggleEventHandler e ident st1 = Returns st2
     \<and> fetch_todos (localStorage st2) = Todos todos"
proof -
  let ?items1 = "update_node p (set_strike (\<not> c)) (update_node e (set_checked (\<not> c)) (todoList st))"
  let ?st1 = "\<lparr>localStorage = setItem (localStorage st) ''todos''
      (JSON_stringify (json_of_todos (toggle_todos ident todos))), todoList = ?items1\<rparr>"
  have 1: "toggleEventHandler e ident st = Returns ?st1"
    by (rule toggleEventHandler_found [OF assms(2) assms(1) assms(3)])
  have f1: "fetch_todos (localStorage ?st1) = Todos (toggle_todos ident todos)"
    by simp
  have n1: "node_at (todoList ?st1) e = Some (Toggle (\<not> c) i)"
    using toggled_page(1) [OF assms(2) assms(3)] by simp
  have g1: "getElementById (todoList ?st1) (''todo-'' @ decimal ident) = Some p"
    using toggled_page(2) [OF assms(2) assms(3)] by simp
  let ?st2 = "\<lparr>localStorage = setItem (localStorage ?st1) ''todos''
      (JSON_stringify (json_of_todos (toggle_todos ident (toggle_todos ident todos)))),
     todoList = update_node p (set_strike (\<not> \<not> c)) (update_node e (set_checked (\<not> \<not> c)) (todoList ?st1))\<rparr>"
  have 2: "toggleEventHandler e ident ?st1 = Returns ?st2"
    by (rule toggleEventHandler_found [OF n1 f1 g1])
  have f2: "fetch_todos (localStorage ?st2) = Todos todos"
    by simp
  show ?thesis
  proof (intro exI conjI)
    show "toggleEventHandler e ident st = Returns ?st1" by (rule 1)
    show "fetch_todos (localStorage ?st1) = Todos (toggle_todos ident todos)" by (rule f1)
    show "length (toggle_todos ident todos) = length todos" by simp
    show "\<forall>k < length todos. toggle_todos ident todos ! k =
           (if todo_id (todos ! k) = ident
            then (todos ! k)\<lparr>todo_completed := \<not> todo_completed (todos ! k)\<rparr>
            else todos ! k)"
      by (simp add: toggle_todos_nth)
    show "toggleEventHandler e ident ?st1 = Returns ?st2" by (rule 2)
    show "fetch_todos (localStorage ?st2) = Todos todos" by (rule f2)
  qed
qed

theorem toggle_twice_restores_witness:
  "\<exists>st1 st2. toggleEventHandler (0, 0) 0
        (shown 1 [\<lparr>todo_id = 0, todo_task = ''a'', todo_completed = False\<rparr>]) = Returns st1
     \<and> fetch_todos (localStorage st1) = Todos [\<lparr>todo_id = 0, todo_task = ''a'', todo_completed = True\<rparr>]
     \<and> toggleEventHandler (0, 0) 0 st1 = Returns st2
     \<and> fetch_todos (localStorage st2) = Todos [\<lparr>todo_id = 0, todo_task = ''a'', todo_completed = False\<rparr>]"
proof -
  let ?t = "\<lparr>todo_id = 0, todo_task = ''a'', todo_completed = False\<rparr>"
  from toggle_twice_restores [OF shown_one_item(1) shown_one_item(2) shown_one_item(4)]
  obtain st1 st2 where r: "toggleEventHandler (0, 0) 0 (shown 1 [?t]) = Returns st1"
    "toggleEventHandler (0, 0) 0 st1 = Returns st2"
    "fetch_todos (localStorage st2) = Todos [?t]"
    by blast
  from r(1) toggle_one_item have "st1 = shown 1 [\<lparr>todo_id = 0, todo_task = ''a'', todo_completed = True\<rparr>]"
    by simp
  then have "fetch_todos (localStorage st1) = Todos [\<lparr>todo_id = 0, todo_task = ''a'', todo_completed = True\<rparr>]"
    by (simp only: shown_fetch)
  with r show ?thesis by blast
qed

text \<open>
  C7. Let the storage hold task records, among them one with the id \<open>ident\<close> (\<open>r\<close> is the
  first such record), and let a checkbox whose listener is bound to \<open>ident\<close> be clicked
  while the text element \<^verbatim>\<open>todo-\<close>\<open>ident\<close> is on the page. If before the click the checkbox
  has the \<^verbatim>\<open>checked\<close> attribute exactly if the record is completed, and the text has the
  class \<^verbatim>\<open>strike\<close> exactly if the record is completed, then the click is handled without
  an error and the same two agreements hold afterwards, for the record as stored after the
  click, whose \<^verbatim>\<open>completed\<close> value is the negation of the old one.
\<close>

theorem toggle_click_keeps_view_in_step:
  assumes "fetch_todos (localStorage st) = Todos todos"
    and "node_at (todoList st) e = Some (Toggle c ident)"
    and "getElementById (todoList st) (''todo-'' @ decimal ident) = Some p"
    and "node_at (todoList st) p = Some (Span a t s)"
    and "find (\<lambda>todo. todo_id todo = ident) todos = Some r"
    and "c = todo_completed r" and "s = todo_completed r"
  shows "\<exists>st' todos' r'. click e st = Returns st'
     \<and> fetch_todos (localStorage st') = Todos todos'
     \<and> find (\<lambda>todo. todo_id todo = ident) todos' = Some r'
     \<and> todo_completed r' = (\<not> todo_completed r)
     \<and> node_at (todoList st') e = Some (Toggle (todo_completed r') ident)
     \<and> node_at (todoList st') p = Some (Span a t (todo_completed r'))
     \<and> getElementById (todoList st') (''todo-'' @ decimal ident) = Some p"
proof -
  let ?items' = "update_node p (set_strike (\<not> c)) (update_node e (set_checked (\<not> c)) (todoList st))"
  let ?st' = "\<lparr>localStorage = setItem (localStorage st) ''todos''
      (JSON_stringify (json_of_todos (toggle_todos ident todos))), todoList = ?items'\<rparr>"
  let ?r' = "r\<lparr>todo_completed := \<not> todo_completed r\<rparr>"
  have a: "a = ''todo-'' @ decimal ident"
    using getElementById_Span [OF assms(3)] assms(4) by auto
  have "click e st = toggleEventHandler e ident st"
    using assms(2) by (simp add: click_def)
  then have 1: "click e st = Returns ?st'"
    using toggleEventHandler_found [OF assms(2) assms(1) assms(3)] by simp
  show ?thesis
  proof (intro exI conjI)
    show "click e st = Returns ?st'" by (rule 1)
    show "fetch_todos (localStorage ?st') = Todos (toggle_todos ident todos)" by simp
    show "find (\<lambda>todo. todo_id todo = ident) (toggle_todos ident todos) = Some ?r'"
      by (simp add: find_toggle_todos assms(5))
    show "todo_completed ?r' = (\<not> todo_completed r)" by simp
    show "node_at (todoList ?st') e = Some (Toggle (todo_completed ?r') ident)"
      using toggled_page(1) [OF assms(2) assms(3)] assms(6) by simp
    show "node_at (todoList ?st') p = Some (Span a t (todo_completed ?r'))"
      using toggled_page(3) [OF assms(2) assms(3), of t s "\<not> c"] assms(4) assms(6) a by simp
    show "getElementById (todoList ?st') (''todo-'' @ decimal ident) = Some p"
      using toggled_page(2) [OF assms(2) assms(3)] by simp
  qed
qed

theorem toggle_click_keeps_view_in_step_witness:
  "\<exists>st'. click (0, 0) (shown 1 [\<lparr>todo_id = 0, todo_task = ''a'', todo_completed = False\<rparr>]) = Returns st'
     \<and> node_at (todoList st') (0, 0) = Some (Toggle True 0)
     \<and> node_at (todoList st') (0, 1) = Some (Span ''todo-0'' ''a'' True)"
proof -
  let ?t = "\<lparr>todo_id = 0, todo_task = ''a'', todo_completed = False\<rparr>"
  have f: "find (\<lambda>todo. todo_id todo = 0) [?t] = Some ?t" by simp
  have c: "False = todo_completed ?t" by simp
  from toggle_click_keeps_view_in_step [OF shown_one_item(1) shown_one_item(2) shown_one_item(4)
      shown_one_item(3) f c c]
  obtain st' todos' r' where "click (0, 0) (shown 1 [?t]) = Returns st'"
    "fetch_todos (localStorage st') = Todos todos'"
    "find (\<lambda>todo. todo_id todo = 0) todos' = Some r'"
    "todo_completed r' = (\<not> todo_completed ?t)"
    "node_at (todoList st') (0, 0) = Some (Toggle (todo_completed r') 0)"
    "node_at (todoList st') (0, 1) = Some (Span ''todo-0'' ''a'' (todo_completed r'))"
    "getElementById (todoList st') (''todo-'' @ decimal 0) = Some (0, 1)"
    by (elim exE conjE) (rule that)
  then show ?thesis by (intro exI [of _ st']) simp
qed



subsection \<open>Order of the records\<close>



subsection \<open>The two files\<close>




end
